theory Spec2Isabelle
  imports Main "HOL-Library.Sublist"
begin

section \<open>Shared data: thrown errors and search results\<close>

text \<open>
  Every value thrown in the modelled code is a JavaScript \<open>Error\<close> (built with
  \<open>new Error(...)\<close> or raised by the HTTP client). The code only ever reads its
  \<open>message\<close> and, for HTTP failures, \<open>err.response?.status\<close>; \<open>status\<close> is
  \<open>None\<close> when the error carries no response.
\<close>

record js_error =
  message :: string
  status :: "nat option"

text \<open>
  One search result as \<open>searchCases\<close> builds it (src/pdf\_reader.js, the
  \<open>results.map\<close>): the fields the server reads afterwards. The source's field
  \<open>id\<close> is called \<open>case_id\<close> here.
\<close>

record case_item =
  case_id :: string
  heading :: string
  citation :: string
  court :: string
  date :: string

text \<open>A search result with the given id and heading, for concrete examples.\<close>

definition mk_case :: "string \<Rightarrow> string \<Rightarrow> case_item" where
  "mk_case i h = \<lparr>case_id = i, heading = h, citation = [], court = [], date = []\<rparr>"

section \<open>Deduplication of search results (server.js, lines 224--236)\<close>

text \<open>
  \<^verbatim>\<open>
  const seenIds = new Set();
  const uniqueCases = [];
  for (const c of cases) {
      if (!seenIds.has(c.id)) { seenIds.add(c.id); uniqueCases.push(c); }
  }
  cases = uniqueCases;
  \<close>
  The loop variables \<open>seenIds\<close> and \<open>uniqueCases\<close> are threaded through the recursion.
\<close>

fun dedup_loop :: "case_item list \<Rightarrow> string set \<Rightarrow> case_item list \<Rightarrow> case_item list" where
  "dedup_loop [] seenIds uniqueCases = uniqueCases"
| "dedup_loop (c # cs) seenIds uniqueCases =
     (if case_id c \<notin> seenIds
      then dedup_loop cs (insert (case_id c) seenIds) (uniqueCases @ [c])
      else dedup_loop cs seenIds uniqueCases)"

definition dedup :: "case_item list \<Rightarrow> case_item list" where
  "dedup cases = dedup_loop cases {} []"

subsection \<open>Properties of the deduplication\<close>

text \<open>The entries the loop still adds: those whose id is neither seen nor earlier in the rest.\<close>

fun fresh_entries :: "string set \<Rightarrow> case_item list \<Rightarrow> case_item list" where
  "fresh_entries seen [] = []"
| "fresh_entries seen (c # cs) =
     (if case_id c \<in> seen then fresh_entries seen cs
      else c # fresh_entries (insert (case_id c) seen) cs)"

lemma dedup_loop_append: "dedup_loop cs seen acc = acc @ fresh_entries seen cs"
  by (induction cs arbitrary: seen acc) simp_all

lemma fresh_entries_ids:
  "case_id ` set (fresh_entries seen cs) = case_id ` set cs - seen"
  by (induction cs arbitrary: seen) auto

lemma fresh_entries_distinct: "distinct (map case_id (fresh_entries seen cs))"
  by (induction cs arbitrary: seen) (auto simp: fresh_entries_ids)

lemma fresh_entries_subseq: "subseq (fresh_entries seen cs) cs"
  by (induction cs arbitrary: seen) auto

lemma fresh_entries_first:
  "c \<in> set (fresh_entries seen cs) \<Longrightarrow> find (\<lambda>d. case_id d = case_id c) cs = Some c"
proof (induction cs arbitrary: seen)
  case Nil
  then show ?case by simp
next
  case (Cons a cs)
  show ?case
  proof (cases "case_id a \<in> seen")
    case True
    with Cons.prems have in_rest: "c \<in> set (fresh_entries seen cs)" by simp
    then have "case_id c \<in> case_id ` set (fresh_entries seen cs)" by (rule imageI)
    then have "case_id c \<notin> seen" by (simp add: fresh_entries_ids)
    with True have "case_id a \<noteq> case_id c" by auto
    with Cons.IH [OF in_rest] show ?thesis by simp
  next
    case False
    with Cons.prems consider "c = a" | "c \<in> set (fresh_entries (insert (case_id a) seen) cs)"
      by auto
    then show ?thesis
    proof cases
      case 1
      then show ?thesis by simp
    next
      case 2
      then have "case_id c \<in> case_id ` set (fresh_entries (insert (case_id a) seen) cs)"
        by (rule imageI)
      then have "case_id a \<noteq> case_id c" by (auto simp: fresh_entries_ids)
      with Cons.IH [OF 2] show ?thesis by simp
    qed
  qed
qed

text \<open>
  C7. For every search result list, the deduplicated list has pairwise-distinct
  identifiers, contains exactly the identifiers of the input (one entry each), keeps the
  relative order of the input (it is a subsequence of it), and the entry kept for an
  identifier is its first occurrence in the input.
\<close>

theorem dedup_first_occurrences:
  "distinct (map case_id (dedup cases))
   \<and> set (map case_id (dedup cases)) = set (map case_id cases)
   \<and> subseq (dedup cases) cases
   \<and> (\<forall>c \<in> set (dedup cases). find (\<lambda>d. case_id d = case_id c) cases = Some c)"
  unfolding dedup_def dedup_loop_append
  using fresh_entries_distinct [of "{}" cases] fresh_entries_ids [of "{}" cases]
    fresh_entries_subseq [of "{}" cases] fresh_entries_first [of _ "{}" cases]
  by simp

text \<open>
  Two pages that both return document 7: the second copy is dropped, the first one
  (heading A) is the entry kept.
\<close>

theorem dedup_first_occurrences_witness:
  "dedup [mk_case ''7'' ''A'', mk_case ''8'' ''B'', mk_case ''7'' ''C'']
     = [mk_case ''7'' ''A'', mk_case ''8'' ''B'']
   \<and> distinct (map case_id (dedup [mk_case ''7'' ''A'', mk_case ''8'' ''B'', mk_case ''7'' ''C'']))
   \<and> find (\<lambda>d. case_id d = case_id (mk_case ''7'' ''A''))
        [mk_case ''7'' ''A'', mk_case ''8'' ''B'', mk_case ''7'' ''C''] = Some (mk_case ''7'' ''A'')"
  using dedup_first_occurrences [of "[mk_case ''7'' ''A'', mk_case ''8'' ''B'', mk_case ''7'' ''C'']"]
  by (simp add: dedup_def mk_case_def)

section \<open>Observable effects\<close>

text \<open>
  The \<open>/api/analyze\<close> handler of server.js and the loops it shares its shape with talk
  to remote services, sleep and stream progress lines. The outside world is an opaque
  state \<open>'r\<close> that each call may change; what the code itself does is recorded, in
  order, in a trace: the remote calls with their arguments, every \<open>await new Promise(r => setTimeout(r, ms))\<close> with the place it
  stands at and its milliseconds, and every \<open>send({...})\<close> with the numbers its message
  is built from.
\<close>

datatype pause =
    PageDelay
  | Backoff
  | FailureCooldown
  | BaseDelay
  | PeriodicCooldown
  | DownloadDelay
  | BatchPause

datatype message =
    Searching nat int nat
  | NoResults
  | RateLimited nat nat nat
  | Reading nat nat
  | CoolingDown nat
  | CooldownPause nat nat
  | FetchDone nat "int option"
  | SearchStart
  | RetryWithoutFilters
  | SearchDone nat
  | AnalyzeError string

datatype event =
    SearchCases nat nat
  | GetCaseHTML string
  | DownloadCase string string
  | SummarizeCase string
  | SaveSummaries
  | Wait pause nat
  | Send message

record 'r world =
  remote :: 'r
  trace :: "event list"

definition is_search_call :: "event \<Rightarrow> bool" where
  "is_search_call e = (case e of SearchCases p n \<Rightarrow> True | _ \<Rightarrow> False)"

section \<open>Paginated search (server.js, lines 183--222)\<close>

record search_result =
  results :: "case_item list"
  totalCount :: nat

text \<open>
  \<open>searchCases\<close> (src/pdf\_reader.js) is one authenticated remote call; the query, the
  sort order and the filter are the same for every page of a run, so the remote call is
  taken as a function of the page and the page size. It returns the page or throws.
\<close>

type_synonym 'r search_api = "nat \<Rightarrow> nat \<Rightarrow> 'r \<Rightarrow> (js_error + search_result) \<times> 'r"

definition PAGE_SIZE :: nat where
  "PAGE_SIZE = 20"

text \<open>\<open>Math.ceil(count / PAGE_SIZE)\<close> for an integer \<open>count\<close>.\<close>

definition ceil_div :: "int \<Rightarrow> nat \<Rightarrow> int" where
  "ceil_div a b = - ((- a) div int b)"

text \<open>
  \<^verbatim>\<open>
  for (let p = 1; p <= totalPgs; p++) {
      const searchResult = await searchCases(keywords, { page: p, pageSize: PAGE_SIZE, ... });
      tc = searchResult.totalCount;
      searchCases_.push(...searchResult.results);
      send({ step: 'search', message: `Searching... page ${p}/${totalPgs} (...)` });
      if (searchCases_.length >= count || searchCases_.length >= tc) break;
      await new Promise(r => setTimeout(r, 300));
  }
  return { results: searchCases_, totalCount: tc };
  \<close>
  A throwing \<open>searchCases\<close> leaves \<open>doSearch\<close> with that error. The accumulator
  \<open>searchCases_\<close> is called \<open>found\<close>.
\<close>

function search_pages ::
  "'r search_api \<Rightarrow> int \<Rightarrow> int \<Rightarrow> nat \<Rightarrow> case_item list \<Rightarrow> nat \<Rightarrow> 'r world
     \<Rightarrow> (js_error + case_item list \<times> nat) \<times> 'r world" where
  "search_pages searchCases count totalPgs p found tc w =
     (if int p \<le> totalPgs then
        (case searchCases p PAGE_SIZE (remote w) of
           (Inl err, r) \<Rightarrow>
             (Inl err, w\<lparr>remote := r, trace := trace w @ [SearchCases p PAGE_SIZE]\<rparr>)
         | (Inr searchResult, r) \<Rightarrow>
             (let tc' = totalCount searchResult;
                  acc = found @ results searchResult;
                  w1 = w\<lparr>remote := r,
                         trace := trace w @ [SearchCases p PAGE_SIZE,
                                            Send (Searching p totalPgs (length acc))]\<rparr>
              in if count \<le> int (length acc) \<or> tc' \<le> length acc then (Inr (acc, tc'), w1)
                 else search_pages searchCases count totalPgs (Suc p) acc tc'
                        (w1\<lparr>trace := trace w1 @ [Wait PageDelay 300]\<rparr>)))
      else (Inr (found, tc), w))"
  by pat_completeness auto
termination
  by (relation "measure (\<lambda>(searchCases, count, totalPgs, p, acc, tc, w). nat (totalPgs + 1 - int p))")
    auto

declare search_pages.simps [simp del]

definition doSearch ::
  "'r search_api \<Rightarrow> int \<Rightarrow> 'r world \<Rightarrow> (js_error + case_item list \<times> nat) \<times> 'r world" where
  "doSearch searchCases count w =
     search_pages searchCases count (ceil_div count PAGE_SIZE) 1 [] 0 w"

text \<open>
  \<open>cases.slice(0, count)\<close>: a negative end counts from the end of the array.
\<close>

definition slice_upto :: "'a list \<Rightarrow> int \<Rightarrow> 'a list" where
  "slice_upto xs count =
     (if 0 \<le> count then take (nat count) xs else take (length xs - nat (- count)) xs)"

subsection \<open>Properties of the paginated search\<close>

lemma search_pages_throw:
  "int p \<le> totalPgs \<Longrightarrow> searchCases p PAGE_SIZE (remote w) = (Inl err, r) \<Longrightarrow>
   search_pages searchCases count totalPgs p acc tc w
     = (Inl err, w\<lparr>remote := r, trace := trace w @ [SearchCases p PAGE_SIZE]\<rparr>)"
  by (subst search_pages.simps) simp

lemma search_pages_stop:
  "int p \<le> totalPgs \<Longrightarrow> searchCases p PAGE_SIZE (remote w) = (Inr res, r) \<Longrightarrow>
   count \<le> int (length (acc @ results res)) \<or> totalCount res \<le> length (acc @ results res) \<Longrightarrow>
   search_pages searchCases count totalPgs p acc tc w
     = (Inr (acc @ results res, totalCount res),
        w\<lparr>remote := r,
          trace := trace w @ [SearchCases p PAGE_SIZE,
                             Send (Searching p totalPgs (length (acc @ results res)))]\<rparr>)"
  by (subst search_pages.simps) (simp add: Let_def)

lemma search_pages_continue:
  "int p \<le> totalPgs \<Longrightarrow> searchCases p PAGE_SIZE (remote w) = (Inr res, r) \<Longrightarrow>
   int (length (acc @ results res)) < count \<Longrightarrow> length (acc @ results res) < totalCount res \<Longrightarrow>
   search_pages searchCases count totalPgs p acc tc w
     = search_pages searchCases count totalPgs (Suc p) (acc @ results res) (totalCount res)
         (w\<lparr>remote := r,
            trace := trace w @ [SearchCases p PAGE_SIZE,
                               Send (Searching p totalPgs (length (acc @ results res))),
                               Wait PageDelay 300]\<rparr>)"
  by (subst search_pages.simps) (simp add: Let_def)

lemma search_pages_done:
  "totalPgs < int p \<Longrightarrow>
   search_pages searchCases count totalPgs p acc tc w = (Inr (acc, tc), w)"
  by (subst search_pages.simps) simp

lemma slice_upto_length: "0 \<le> count \<Longrightarrow> int (length (slice_upto xs count)) \<le> count"
  by (simp add: slice_upto_def)

lemma doSearch_full_pages:
  assumes full: "\<And>p r. \<exists>res r'. searchCases p PAGE_SIZE r = (Inr res, r')
                    \<and> length (results res) = PAGE_SIZE \<and> 45 \<le> totalCount res"
  shows "\<exists>cs tc w'. doSearch searchCases 45 w = (Inr (cs, tc), w')
           \<and> trace w' = trace w @
                [SearchCases 1 PAGE_SIZE, Send (Searching 1 3 20), Wait PageDelay 300,
                 SearchCases 2 PAGE_SIZE, Send (Searching 2 3 40), Wait PageDelay 300,
                 SearchCases 3 PAGE_SIZE, Send (Searching 3 3 60)]
           \<and> length cs = 60"
proof -
  from full [of 1 "remote w"] obtain res1 r1 where
    c1: "searchCases (Suc 0) PAGE_SIZE (remote w) = (Inr res1, r1)"
    and l1: "length (results res1) = 20" and t1: "45 \<le> totalCount res1"
    by (auto simp: PAGE_SIZE_def)
  define w1 where "w1 = w\<lparr>remote := r1,
     trace := trace w @ [SearchCases (Suc 0) PAGE_SIZE,
                        Send (Searching (Suc 0) 3 (length ([] @ results res1))), Wait PageDelay 300]\<rparr>"
  from full [of 2 "remote w1"] obtain res2 r2 where
    c2: "searchCases (Suc (Suc 0)) PAGE_SIZE (remote w1) = (Inr res2, r2)"
    and l2: "length (results res2) = 20" and t2: "45 \<le> totalCount res2"
    by (auto simp: PAGE_SIZE_def numeral_2_eq_2)
  define w2 where "w2 = w1\<lparr>remote := r2,
     trace := trace w1 @ [SearchCases (Suc (Suc 0)) PAGE_SIZE,
                         Send (Searching (Suc (Suc 0)) 3 (length (([] @ results res1) @ results res2))),
                         Wait PageDelay 300]\<rparr>"
  from full [of 3 "remote w2"] obtain res3 r3 where
    c3: "searchCases (Suc (Suc (Suc 0))) PAGE_SIZE (remote w2) = (Inr res3, r3)"
    and l3: "length (results res3) = 20" and t3: "45 \<le> totalCount res3"
    by (auto simp: PAGE_SIZE_def numeral_3_eq_3)
  have s1: "search_pages searchCases 45 3 (Suc 0) [] 0 w
            = search_pages searchCases 45 3 (Suc (Suc 0)) ([] @ results res1) (totalCount res1) w1"
    unfolding w1_def using c1 l1 t1 by (subst search_pages.simps) (simp add: Let_def)
  have s2: "search_pages searchCases 45 3 (Suc (Suc 0)) ([] @ results res1) (totalCount res1) w1
            = search_pages searchCases 45 3 (Suc (Suc (Suc 0))) (([] @ results res1) @ results res2)
                (totalCount res2) w2"
    unfolding w2_def using c2 l1 l2 t2 by (subst search_pages.simps) (simp add: Let_def)
  have s3: "search_pages searchCases 45 3 (Suc (Suc (Suc 0))) (([] @ results res1) @ results res2)
                (totalCount res2) w2
            = (Inr ((([] @ results res1) @ results res2) @ results res3, totalCount res3),
               w2\<lparr>remote := r3,
                 trace := trace w2 @ [SearchCases (Suc (Suc (Suc 0))) PAGE_SIZE,
                   Send (Searching (Suc (Suc (Suc 0))) 3
                     (length ((([] @ results res1) @ results res2) @ results res3)))]\<rparr>)"
    using c3 l1 l2 l3 by (subst search_pages.simps) (simp add: Let_def)
  have "doSearch searchCases 45 w = search_pages searchCases 45 3 (Suc 0) [] 0 w"
    by (simp add: doSearch_def ceil_div_def PAGE_SIZE_def)
  also note s1
  also note s2
  also note s3
  finally have "doSearch searchCases 45 w
        = (Inr ((([] @ results res1) @ results res2) @ results res3, totalCount res3),
           w2\<lparr>remote := r3,
             trace := trace w2 @ [SearchCases (Suc (Suc (Suc 0))) PAGE_SIZE,
               Send (Searching (Suc (Suc (Suc 0))) 3
                 (length ((([] @ results res1) @ results res2) @ results res3)))]\<rparr>)" .
  then show ?thesis
    using l1 l2 l3 by (simp add: w1_def w2_def numeral_2_eq_2 numeral_3_eq_3)
qed

text \<open>
  C6. With a target count of 45 and pages of 20, a remote that returns full pages and
  reports at least 45 results is searched exactly three times (pages 1, 2, 3, with a
  300 ms pause between them), 60 results are accumulated and the trimmed list has 45
  entries. In general the loop returns right after the page that brings the accumulated
  results to the target or to the reported total, with no further call, and trimming to a
  non-negative target never leaves more entries than the target.
\<close>

theorem doSearch_target_45:
  assumes full: "\<And>p r. \<exists>res r'. searchCases p PAGE_SIZE r = (Inr res, r')
                    \<and> length (results res) = PAGE_SIZE \<and> 45 \<le> totalCount res"
  shows "(\<exists>cs tc w'. doSearch searchCases 45 w = (Inr (cs, tc), w')
           \<and> trace w' = trace w @
                [SearchCases 1 PAGE_SIZE, Send (Searching 1 3 20), Wait PageDelay 300,
                 SearchCases 2 PAGE_SIZE, Send (Searching 2 3 40), Wait PageDelay 300,
                 SearchCases 3 PAGE_SIZE, Send (Searching 3 3 60)]
           \<and> length (filter is_search_call (trace w'))
               = length (filter is_search_call (trace w)) + 3
           \<and> length cs = 60
           \<and> length (slice_upto cs 45) = 45)
       \<and> (\<forall>count totalPgs p acc tc0 v res r.
             int p \<le> totalPgs \<and> searchCases p PAGE_SIZE (remote v) = (Inr res, r)
             \<and> (count \<le> int (length (acc @ results res))
                  \<or> totalCount res \<le> length (acc @ results res))
             \<longrightarrow> search_pages searchCases count totalPgs p acc tc0 v
                   = (Inr (acc @ results res, totalCount res),
                      v\<lparr>remote := r,
                        trace := trace v @ [SearchCases p PAGE_SIZE,
                          Send (Searching p totalPgs (length (acc @ results res)))]\<rparr>))
       \<and> (\<forall>count (xs :: case_item list). 0 \<le> count \<longrightarrow> int (length (slice_upto xs count)) \<le> count)"
proof (intro conjI)
  from doSearch_full_pages [where searchCases = searchCases and w = w, OF full]
  obtain cs tc w' where
    run: "doSearch searchCases 45 w = (Inr (cs, tc), w')"
    and tr: "trace w' = trace w @
                [SearchCases 1 PAGE_SIZE, Send (Searching 1 3 20), Wait PageDelay 300,
                 SearchCases 2 PAGE_SIZE, Send (Searching 2 3 40), Wait PageDelay 300,
                 SearchCases 3 PAGE_SIZE, Send (Searching 3 3 60)]"
    and len: "length cs = 60"
    by blast
  have "length (filter is_search_call (trace w'))
          = length (filter is_search_call (trace w)) + 3"
    by (simp add: tr is_search_call_def)
  moreover have "length (slice_upto cs 45) = 45"
    by (simp add: slice_upto_def len)
  ultimately show "\<exists>cs tc w'. doSearch searchCases 45 w = (Inr (cs, tc), w')
           \<and> trace w' = trace w @
                [SearchCases 1 PAGE_SIZE, Send (Searching 1 3 20), Wait PageDelay 300,
                 SearchCases 2 PAGE_SIZE, Send (Searching 2 3 40), Wait PageDelay 300,
                 SearchCases 3 PAGE_SIZE, Send (Searching 3 3 60)]
           \<and> length (filter is_search_call (trace w'))
               = length (filter is_search_call (trace w)) + 3
           \<and> length cs = 60
           \<and> length (slice_upto cs 45) = 45"
    using run tr len by blast
next
  show "\<forall>count totalPgs p acc tc0 v res r.
             int p \<le> totalPgs \<and> searchCases p PAGE_SIZE (remote v) = (Inr res, r)
             \<and> (count \<le> int (length (acc @ results res))
                  \<or> totalCount res \<le> length (acc @ results res))
             \<longrightarrow> search_pages searchCases count totalPgs p acc tc0 v
                   = (Inr (acc @ results res, totalCount res),
                      v\<lparr>remote := r,
                        trace := trace v @ [SearchCases p PAGE_SIZE,
                          Send (Searching p totalPgs (length (acc @ results res)))]\<rparr>)"
    by (intro allI impI) (subst search_pages.simps, auto simp: Let_def)
next
  show "\<forall>count (xs :: case_item list). 0 \<le> count \<longrightarrow> int (length (slice_upto xs count)) \<le> count"
    using slice_upto_length by blast
qed

text \<open>A remote that always has a full page and reports 100 results, for a concrete run.\<close>

definition full_pages_api :: "unit search_api" where
  "full_pages_api p n r = (Inr \<lparr>results = replicate n (mk_case ''c'' ''h''), totalCount = 100\<rparr>, r)"

theorem doSearch_target_45_witness:
  "\<exists>cs tc w'. doSearch full_pages_api 45 \<lparr>remote = (), trace = []\<rparr> = (Inr (cs, tc), w')
      \<and> length (filter is_search_call (trace w')) = 3
      \<and> length cs = 60 \<and> length (slice_upto cs 45) = 45"
proof -
  have full: "\<And>p r. \<exists>res r'. full_pages_api p PAGE_SIZE r = (Inr res, r')
                    \<and> length (results res) = PAGE_SIZE \<and> 45 \<le> totalCount res"
    by (simp add: full_pages_api_def)
  from doSearch_target_45 [where searchCases = full_pages_api
      and w = "\<lparr>remote = (), trace = []\<rparr>", OF full]
  show ?thesis by (auto simp: is_search_call_def)
qed

section \<open>Fetching the case texts (server.js, lines 245--316)\<close>

text \<open>What the loop pushes on \<open>caseTexts\<close> for a fetched case.\<close>

record case_text =
  text_id :: string
  filename :: string
  text_heading :: string
  text_court :: string
  text_date :: string
  text_body :: string

text \<open>\<open>cases[i].heading || cases[i].id\<close>: the empty string is falsy.\<close>

definition mk_text :: "case_item \<Rightarrow> string \<Rightarrow> case_text" where
  "mk_text c plain =
     \<lparr>text_id = case_id c,
      filename = (if heading c \<noteq> [] then heading c else case_id c),
      text_heading = heading c, text_court = court c, text_date = date c,
      text_body = plain\<rparr>"

text \<open>
  \<open>getCaseHTML\<close> (src/unnamed/part\_004) is one authenticated remote call: it returns the
  document's \<open>htmlContent\<close> or throws. The conversion of the HTML to plain text
  (\<open>replace(/<[^>]*>/g, ' ').replace(/\s+/g, ' ').trim()\<close>) is the parameter
  \<open>plainText\<close>; no property below depends on the text.
\<close>

type_synonym 'r fetch_api = "string \<Rightarrow> 'r \<Rightarrow> (js_error + string) \<times> 'r"

record 'r fetch_state = "'r world" +
  caseTexts :: "case_text list"
  consecutiveFails :: nat

definition MAX_RETRIES :: nat where
  "MAX_RETRIES = 3"

text \<open>\<open>s.includes(pat)\<close>: \<open>pat\<close> occurs in \<open>s\<close>.\<close>

fun str_includes :: "string \<Rightarrow> string \<Rightarrow> bool" where
  "str_includes [] pat = (pat = [])"
| "str_includes (c # cs) pat = (prefix pat (c # cs) \<or> str_includes cs pat)"

text \<open>\<open>err.message?.includes('409') || err.message?.includes('limit')\<close>\<close>

definition isRateLimit :: "js_error \<Rightarrow> bool" where
  "isRateLimit err = (str_includes (message err) ''409'' \<or> str_includes (message err) ''limit'')"

text \<open>\<open>Math.min(5000 * Math.pow(2, retries), 30000)\<close>\<close>

definition backoff :: "nat \<Rightarrow> nat" where
  "backoff retries = min (5000 * 2 ^ retries) 30000"

text \<open>
  The inner loop, entered with \<open>success = false\<close>:
  \<^verbatim>\<open>
  while (!success && retries < MAX_RETRIES) {
      try {
          const doc = await getCaseHTML(cases[i].id);
          const plainText = doc.htmlContent.replace(...).replace(...).trim();
          caseTexts.push({ id: cases[i].id, filename: ..., text: plainText });
          success = true;
          consecutiveFails = 0;
      } catch (err) {
          retries++;
          const isRateLimit = err.message?.includes('409') || err.message?.includes('limit');
          if (isRateLimit && retries < MAX_RETRIES) {
              const backoff = Math.min(5000 * Math.pow(2, retries), 30000);
              send({ step: 'fetch_progress', message: `Rate limited ...` });
              await new Promise(r => setTimeout(r, backoff));
          } else {
              consecutiveFails++;
              break;
          }
      }
  }
  \<close>
  The result is the final value of \<open>success\<close> with the state; after a success the loop
  condition fails at once, so the success branch returns. \<open>ntotal\<close> is \<open>cases.length\<close>,
  which only the progress message reads.
\<close>

function fetch_attempts ::
  "'r fetch_api \<Rightarrow> (string \<Rightarrow> string) \<Rightarrow> nat \<Rightarrow> case_item \<Rightarrow> nat \<Rightarrow> 'r fetch_state
     \<Rightarrow> bool \<times> 'r fetch_state" where
  "fetch_attempts getCaseHTML plainText ntotal c retries s =
     (if retries < MAX_RETRIES then
        (case getCaseHTML (case_id c) (remote s) of
           (Inr html, r) \<Rightarrow>
             (True, s\<lparr>remote := r, trace := trace s @ [GetCaseHTML (case_id c)],
                      caseTexts := caseTexts s @ [mk_text c (plainText html)],
                      consecutiveFails := 0\<rparr>)
         | (Inl err, r) \<Rightarrow>
             (if isRateLimit err \<and> Suc retries < MAX_RETRIES then
                fetch_attempts getCaseHTML plainText ntotal c (Suc retries)
                  (s\<lparr>remote := r,
                     trace := trace s @
                       [GetCaseHTML (case_id c),
                        Send (RateLimited (backoff (Suc retries)) (length (caseTexts s)) ntotal),
                        Wait Backoff (backoff (Suc retries))]\<rparr>)
              else
                (False, s\<lparr>remote := r, trace := trace s @ [GetCaseHTML (case_id c)],
                          consecutiveFails := Suc (consecutiveFails s)\<rparr>)))
      else (False, s))"
  by pat_completeness auto
termination
  by (relation "measure (\<lambda>(getCaseHTML, plainText, ntotal, c, retries, s). MAX_RETRIES - retries)")
    auto

declare fetch_attempts.simps [simp del]

text \<open>
  One iteration of the \<open>for\<close> loop for index \<open>i\<close>: the attempts on \<open>cases[i]\<close>, the
  progress line, the cooldown after five consecutive failures, the base delay and the
  periodic cooldown. \<open>i === cases.length - 1\<close> is \<open>Suc i = length cases\<close> and
  \<open>i < cases.length - 1\<close> is \<open>Suc i < length cases\<close>.
\<close>

definition emit :: "event list \<Rightarrow> 'r fetch_state \<Rightarrow> 'r fetch_state" where
  "emit es s = s\<lparr>trace := trace s @ es\<rparr>"

definition progress_line :: "nat \<Rightarrow> nat \<Rightarrow> 'r fetch_state \<Rightarrow> 'r fetch_state" where
  "progress_line n i s =
     (if length (caseTexts s) mod 5 = 0 \<or> Suc i = n
      then emit [Send (Reading (length (caseTexts s)) n)] s else s)"

definition failure_cooldown :: "'r fetch_state \<Rightarrow> 'r fetch_state" where
  "failure_cooldown s =
     (if 5 \<le> consecutiveFails s
      then (emit [Send (CoolingDown (length (caseTexts s))), Wait FailureCooldown 30000] s)
             \<lparr>consecutiveFails := 0\<rparr>
      else s)"

definition base_delay :: "nat \<Rightarrow> nat \<Rightarrow> 'r fetch_state \<Rightarrow> 'r fetch_state" where
  "base_delay n i s = (if Suc i < n then emit [Wait BaseDelay 800] s else s)"

definition periodic_cooldown :: "nat \<Rightarrow> nat \<Rightarrow> 'r fetch_state \<Rightarrow> 'r fetch_state" where
  "periodic_cooldown n i s =
     (if Suc i mod 30 = 0 \<and> Suc i < n
      then emit [Send (CooldownPause (Suc i) (length (caseTexts s))), Wait PeriodicCooldown 15000] s
      else s)"

definition fetch_iteration ::
  "'r fetch_api \<Rightarrow> (string \<Rightarrow> string) \<Rightarrow> case_item list \<Rightarrow> nat \<Rightarrow> 'r fetch_state \<Rightarrow> 'r fetch_state" where
  "fetch_iteration getCaseHTML plainText cases i s =
     periodic_cooldown (length cases) i
       (base_delay (length cases) i
         (failure_cooldown
           (progress_line (length cases) i
             (snd (fetch_attempts getCaseHTML plainText (length cases) (cases ! i) 0 s)))))"

text \<open>\<open>for (let i = 0; i < cases.length; i++) { ... }\<close>\<close>

function fetch_loop ::
  "'r fetch_api \<Rightarrow> (string \<Rightarrow> string) \<Rightarrow> case_item list \<Rightarrow> nat \<Rightarrow> 'r fetch_state \<Rightarrow> 'r fetch_state" where
  "fetch_loop getCaseHTML plainText cases i s =
     (if i < length cases
      then fetch_loop getCaseHTML plainText cases (Suc i) (fetch_iteration getCaseHTML plainText cases i s)
      else s)"
  by pat_completeness auto
termination
  by (relation "measure (\<lambda>(getCaseHTML, plainText, cases, i, s). length cases - i)") auto

declare fetch_loop.simps [simp del]

text \<open>
  Step 2 of the handler, after the \<open>search_done\<close> message: an empty list ends the
  request with the \<open>No results found\<close> message before the loop; otherwise the loop runs
  from \<open>caseTexts = []\<close>, \<open>consecutiveFails = 0\<close>, and
  \<open>skippedCount = cases.length - caseTexts.length\<close> goes into the \<open>fetch_done\<close> message
  when it is positive. The result is \<open>caseTexts\<close> with \<open>skippedCount\<close>.
\<close>

definition fetch_init :: "case_item list \<Rightarrow> 'r world \<Rightarrow> 'r fetch_state" where
  "fetch_init cases w =
     \<lparr>remote = remote w, trace = trace w @ [Send (Reading 0 (length cases))],
      caseTexts = [], consecutiveFails = 0\<rparr>"

definition skippedCount :: "case_item list \<Rightarrow> 'r fetch_state \<Rightarrow> int" where
  "skippedCount cases s = int (length cases) - int (length (caseTexts s))"

definition fetch_done :: "case_item list \<Rightarrow> 'r fetch_state \<Rightarrow> 'r fetch_state" where
  "fetch_done cases s =
     emit [Send (FetchDone (length (caseTexts s))
                   (if 0 < skippedCount cases s then Some (skippedCount cases s) else None))] s"

definition fetch_step ::
  "'r fetch_api \<Rightarrow> (string \<Rightarrow> string) \<Rightarrow> case_item list \<Rightarrow> 'r world
     \<Rightarrow> (case_text list \<times> int) option \<times> 'r fetch_state" where
  "fetch_step getCaseHTML plainText cases w =
     (if cases = []
      then (None, \<lparr>remote = remote w, trace = trace w @ [Send NoResults],
                   caseTexts = [], consecutiveFails = 0\<rparr>)
      else (let s = fetch_loop getCaseHTML plainText cases 0 (fetch_init cases w)
            in (Some (caseTexts s, skippedCount cases s), fetch_done cases s)))"


text \<open>The state at the \<open>k\<close>-th iteration boundary of the loop started in \<open>s0\<close>.\<close>

primrec fetch_state_at ::
  "'r fetch_api \<Rightarrow> (string \<Rightarrow> string) \<Rightarrow> case_item list \<Rightarrow> 'r fetch_state \<Rightarrow> nat \<Rightarrow> 'r fetch_state" where
  "fetch_state_at g pt cases s0 0 = s0"
| "fetch_state_at g pt cases s0 (Suc k) = fetch_iteration g pt cases k (fetch_state_at g pt cases s0 k)"

text \<open>
  What an iteration emits after the attempts on its item, from the state \<open>s1\<close> the
  attempts leave.
\<close>

definition iteration_events :: "nat \<Rightarrow> nat \<Rightarrow> 'r fetch_state \<Rightarrow> event list" where
  "iteration_events n i s1 =
     (if length (caseTexts s1) mod 5 = 0 \<or> Suc i = n
      then [Send (Reading (length (caseTexts s1)) n)] else [])
     @ (if 5 \<le> consecutiveFails s1
        then [Send (CoolingDown (length (caseTexts s1))), Wait FailureCooldown 30000] else [])
     @ (if Suc i < n then [Wait BaseDelay 800] else [])
     @ (if Suc i mod 30 = 0 \<and> Suc i < n
        then [Send (CooldownPause (Suc i) (length (caseTexts s1))), Wait PeriodicCooldown 15000]
        else [])"

text \<open>The pauses of the cooldown after five consecutive failures.\<close>

definition is_failure_cooldown :: "event \<Rightarrow> bool" where
  "is_failure_cooldown e = (case e of Wait FailureCooldown ms \<Rightarrow> True | _ \<Rightarrow> False)"

text \<open>The fetch calls and the backoff pauses, and those of an item that is rate-limited throughout.\<close>

definition is_attempt :: "event \<Rightarrow> bool" where
  "is_attempt e = (case e of GetCaseHTML i \<Rightarrow> True | Wait Backoff ms \<Rightarrow> True | _ \<Rightarrow> False)"

definition item_attempts :: "case_item \<Rightarrow> event list" where
  "item_attempts c =
     [GetCaseHTML (case_id c), Wait Backoff (min (5000 * 2 ^ 1) 30000),
      GetCaseHTML (case_id c), Wait Backoff (min (5000 * 2 ^ 2) 30000),
      GetCaseHTML (case_id c)]"



subsection \<open>Properties of the fetch loop\<close>

lemma fetch_attempts_ok:
  "retries < MAX_RETRIES \<Longrightarrow> g (case_id c) (remote s) = (Inr html, r) \<Longrightarrow>
   fetch_attempts g pt n c retries s
     = (True, s\<lparr>remote := r, trace := trace s @ [GetCaseHTML (case_id c)],
                caseTexts := caseTexts s @ [mk_text c (pt html)], consecutiveFails := 0\<rparr>)"
  by (subst fetch_attempts.simps) simp

lemma fetch_attempts_retry:
  "g (case_id c) (remote s) = (Inl err, r) \<Longrightarrow> isRateLimit err \<Longrightarrow> Suc retries < MAX_RETRIES \<Longrightarrow>
   fetch_attempts g pt n c retries s
     = fetch_attempts g pt n c (Suc retries)
         (s\<lparr>remote := r,
            trace := trace s @
              [GetCaseHTML (case_id c),
               Send (RateLimited (backoff (Suc retries)) (length (caseTexts s)) n),
               Wait Backoff (backoff (Suc retries))]\<rparr>)"
  by (subst fetch_attempts.simps) simp

lemma fetch_attempts_skip:
  "retries < MAX_RETRIES \<Longrightarrow> g (case_id c) (remote s) = (Inl err, r) \<Longrightarrow>
   \<not> (isRateLimit err \<and> Suc retries < MAX_RETRIES) \<Longrightarrow>
   fetch_attempts g pt n c retries s
     = (False, s\<lparr>remote := r, trace := trace s @ [GetCaseHTML (case_id c)],
                 consecutiveFails := Suc (consecutiveFails s)\<rparr>)"
  by (subst fetch_attempts.simps) auto

lemma fetch_attempts_outcome:
  "retries < MAX_RETRIES \<Longrightarrow> fetch_attempts g pt n c retries s = (ok, s') \<Longrightarrow>
   (if ok then consecutiveFails s' = 0 \<and> (\<exists>html. caseTexts s' = caseTexts s @ [mk_text c (pt html)])
    else consecutiveFails s' = Suc (consecutiveFails s) \<and> caseTexts s' = caseTexts s)
   \<and> (\<exists>es. trace s' = trace s @ es \<and> filter is_failure_cooldown es = [])
   \<and> (ok \<longrightarrow> (\<exists>r0 html r'. g (case_id c) r0 = (Inr html, r')))"
proof (induction "MAX_RETRIES - retries" arbitrary: retries s)
  case 0
  then show ?case by simp
next
  case (Suc k)
  obtain res r where call: "g (case_id c) (remote s) = (res, r)" by force
  show ?case
  proof (cases res)
    case (Inr html)
    with call Suc.prems show ?thesis
      by (auto simp: fetch_attempts_ok is_failure_cooldown_def)
  next
    case (Inl err)
    show ?thesis
    proof (cases "isRateLimit err \<and> Suc retries < MAX_RETRIES")
      case True
      let ?s1 = "s\<lparr>remote := r,
            trace := trace s @
              [GetCaseHTML (case_id c),
               Send (RateLimited (backoff (Suc retries)) (length (caseTexts s)) n),
               Wait Backoff (backoff (Suc retries))]\<rparr>"
      from True call Inl Suc.prems have next_run: "fetch_attempts g pt n c (Suc retries) ?s1 = (ok, s')"
        by (simp add: fetch_attempts_retry)
      from Suc.hyps(2) have k: "k = MAX_RETRIES - Suc retries" by simp
      from True have lt: "Suc retries < MAX_RETRIES" by simp
      note ih = Suc.hyps(1) [OF k lt next_run]
      have same: "caseTexts ?s1 = caseTexts s" "consecutiveFails ?s1 = consecutiveFails s"
        by simp_all
      from ih obtain es where es: "trace s' = trace ?s1 @ es" "filter is_failure_cooldown es = []"
        by blast
      have "trace s' = trace s @ ([GetCaseHTML (case_id c),
               Send (RateLimited (backoff (Suc retries)) (length (caseTexts s)) n),
               Wait Backoff (backoff (Suc retries))] @ es)
            \<and> filter is_failure_cooldown ([GetCaseHTML (case_id c),
               Send (RateLimited (backoff (Suc retries)) (length (caseTexts s)) n),
               Wait Backoff (backoff (Suc retries))] @ es) = []"
        using es by (simp add: is_failure_cooldown_def)
      then have "\<exists>es. trace s' = trace s @ es \<and> filter is_failure_cooldown es = []"
        by blast
      with ih same show ?thesis by (cases ok) simp_all
    next
      case False
      with call Inl Suc.prems show ?thesis
        by (auto simp: fetch_attempts_skip is_failure_cooldown_def)
    qed
  qed
qed

lemma zero_lt_MAX_RETRIES: "0 < MAX_RETRIES"
  by (simp add: MAX_RETRIES_def)

lemma emit_fields [simp]:
  "trace (emit es s) = trace s @ es"
  "caseTexts (emit es s) = caseTexts s"
  "consecutiveFails (emit es s) = consecutiveFails s"
  "remote (emit es s) = remote s"
  by (simp_all add: emit_def)

lemma progress_line_fields [simp]:
  "caseTexts (progress_line n i s) = caseTexts s"
  "consecutiveFails (progress_line n i s) = consecutiveFails s"
  "trace (progress_line n i s)
     = trace s @ (if length (caseTexts s) mod 5 = 0 \<or> Suc i = n
                  then [Send (Reading (length (caseTexts s)) n)] else [])"
  by (simp_all add: progress_line_def)

lemma failure_cooldown_fields [simp]:
  "caseTexts (failure_cooldown s) = caseTexts s"
  "consecutiveFails (failure_cooldown s) = (if 5 \<le> consecutiveFails s then 0 else consecutiveFails s)"
  "trace (failure_cooldown s)
     = trace s @ (if 5 \<le> consecutiveFails s
                  then [Send (CoolingDown (length (caseTexts s))), Wait FailureCooldown 30000] else [])"
  by (simp_all add: failure_cooldown_def)

lemma base_delay_fields [simp]:
  "caseTexts (base_delay n i s) = caseTexts s"
  "consecutiveFails (base_delay n i s) = consecutiveFails s"
  "trace (base_delay n i s) = trace s @ (if Suc i < n then [Wait BaseDelay 800] else [])"
  by (simp_all add: base_delay_def)

lemma periodic_cooldown_fields [simp]:
  "caseTexts (periodic_cooldown n i s) = caseTexts s"
  "consecutiveFails (periodic_cooldown n i s) = consecutiveFails s"
  "trace (periodic_cooldown n i s)
     = trace s @ (if Suc i mod 30 = 0 \<and> Suc i < n
        then [Send (CooldownPause (Suc i) (length (caseTexts s))), Wait PeriodicCooldown 15000]
        else [])"
  by (simp_all add: periodic_cooldown_def)

lemma fetch_iteration_fields:
  assumes run: "fetch_attempts g pt (length cases) (cases ! i) 0 s = (ok, s1)"
  shows "caseTexts (fetch_iteration g pt cases i s) = caseTexts s1"
    and "consecutiveFails (fetch_iteration g pt cases i s)
           = (if 5 \<le> consecutiveFails s1 then 0 else consecutiveFails s1)"
    and "trace (fetch_iteration g pt cases i s) = trace s1 @ iteration_events (length cases) i s1"
  by (simp_all add: fetch_iteration_def run iteration_events_def)

lemma iteration_events_cooldown:
  "filter is_failure_cooldown (iteration_events n i s1)
     = (if 5 \<le> consecutiveFails s1 then [Wait FailureCooldown 30000] else [])"
  by (simp add: iteration_events_def is_failure_cooldown_def)

lemma fetch_iteration_effect:
  assumes run: "fetch_attempts g pt (length cases) (cases ! i) 0 s = (ok, s1)"
  shows "consecutiveFails (fetch_iteration g pt cases i s)
           = (if ok then 0 else if 5 \<le> Suc (consecutiveFails s) then 0 else Suc (consecutiveFails s))"
    and "\<exists>es. trace (fetch_iteration g pt cases i s) = trace s @ es
           \<and> filter is_failure_cooldown es
               = (if \<not> ok \<and> 5 \<le> Suc (consecutiveFails s) then [Wait FailureCooldown 30000] else [])"
proof -
  note out = fetch_attempts_outcome [OF zero_lt_MAX_RETRIES run]
  from out have cf: "consecutiveFails s1 = (if ok then 0 else Suc (consecutiveFails s))"
    by (simp split: if_splits)
  from out obtain es1 where es1: "trace s1 = trace s @ es1" "filter is_failure_cooldown es1 = []"
    by blast
  show "consecutiveFails (fetch_iteration g pt cases i s)
           = (if ok then 0 else if 5 \<le> Suc (consecutiveFails s) then 0 else Suc (consecutiveFails s))"
    by (simp add: fetch_iteration_fields(2) [OF run] cf)
  have "trace (fetch_iteration g pt cases i s) = trace s @ (es1 @ iteration_events (length cases) i s1)"
    by (simp add: fetch_iteration_fields(3) [OF run] es1)
  moreover have "filter is_failure_cooldown (es1 @ iteration_events (length cases) i s1)
      = (if \<not> ok \<and> 5 \<le> Suc (consecutiveFails s) then [Wait FailureCooldown 30000] else [])"
    by (simp add: es1 iteration_events_cooldown cf)
  ultimately show "\<exists>es. trace (fetch_iteration g pt cases i s) = trace s @ es
           \<and> filter is_failure_cooldown es
               = (if \<not> ok \<and> 5 \<le> Suc (consecutiveFails s) then [Wait FailureCooldown 30000] else [])"
    by blast
qed

lemma fetch_iteration_below_threshold: "consecutiveFails (fetch_iteration g pt cases i s) < 5"
proof -
  obtain ok s1 where "fetch_attempts g pt (length cases) (cases ! i) 0 s = (ok, s1)" by force
  from fetch_iteration_effect(1) [OF this] show ?thesis by (simp split: if_splits)
qed

lemma fetch_state_at_below_threshold:
  "consecutiveFails s0 < 5 \<Longrightarrow> consecutiveFails (fetch_state_at g pt cases s0 k) < 5"
  by (cases k) (simp_all add: fetch_iteration_below_threshold)

lemma fetch_loop_from_boundary:
  "i \<le> length cases \<Longrightarrow>
   fetch_loop g pt cases i (fetch_state_at g pt cases s0 i) = fetch_state_at g pt cases s0 (length cases)"
proof (induction "length cases - i" arbitrary: i)
  case 0
  then show ?case by (subst fetch_loop.simps) simp
next
  case (Suc k)
  then have lt: "i < length cases" by simp
  from Suc.hyps(2) have "k = length cases - Suc i" by simp
  from Suc.hyps(1) [OF this] lt
  have "fetch_loop g pt cases (Suc i) (fetch_state_at g pt cases s0 (Suc i))
      = fetch_state_at g pt cases s0 (length cases)" by simp
  with lt show ?case by (subst fetch_loop.simps) simp
qed

lemma fetch_loop_invariant:
  assumes start: "P i s"
    and step: "\<And>j t. j < length cases \<Longrightarrow> P j t \<Longrightarrow> P (Suc j) (fetch_iteration g pt cases j t)"
    and le: "i \<le> length cases"
  shows "P (length cases) (fetch_loop g pt cases i s)"
  using start le
proof (induction "length cases - i" arbitrary: i s)
  case 0
  then show ?case by (subst fetch_loop.simps) simp
next
  case (Suc k)
  then have lt: "i < length cases" by simp
  from Suc.hyps(2) have k: "k = length cases - Suc i" by simp
  from step [OF lt Suc.prems(1)] have "P (Suc i) (fetch_iteration g pt cases i s)" .
  from Suc.hyps(1) [OF k this] lt
  have "P (length cases) (fetch_loop g pt cases (Suc i) (fetch_iteration g pt cases i s))"
    by simp
  with lt show ?case by (subst fetch_loop.simps) simp
qed

lemma iteration_events_attempts: "filter is_attempt (iteration_events n i s1) = []"
  by (simp add: iteration_events_def is_attempt_def)

lemma fetch_attempts_rate_limited:
  assumes limited: "\<And>i r. \<exists>err r'. g i r = (Inl err, r') \<and> isRateLimit err"
  shows "\<exists>s'. fetch_attempts g pt n c 0 s = (False, s')
           \<and> trace s' = trace s @
                [GetCaseHTML (case_id c),
                 Send (RateLimited (min (5000 * 2 ^ 1) 30000) (length (caseTexts s)) n),
                 Wait Backoff (min (5000 * 2 ^ 1) 30000),
                 GetCaseHTML (case_id c),
                 Send (RateLimited (min (5000 * 2 ^ 2) 30000) (length (caseTexts s)) n),
                 Wait Backoff (min (5000 * 2 ^ 2) 30000),
                 GetCaseHTML (case_id c)]
           \<and> caseTexts s' = caseTexts s
           \<and> consecutiveFails s' = Suc (consecutiveFails s)"
proof -
  from limited [of "case_id c" "remote s"] obtain e1 r1 where
    c1: "g (case_id c) (remote s) = (Inl e1, r1)" and l1: "isRateLimit e1" by blast
  define s1 where "s1 = s\<lparr>remote := r1,
            trace := trace s @
              [GetCaseHTML (case_id c),
               Send (RateLimited (backoff (Suc 0)) (length (caseTexts s)) n),
               Wait Backoff (backoff (Suc 0))]\<rparr>"
  from limited [of "case_id c" "remote s1"] obtain e2 r2 where
    c2: "g (case_id c) (remote s1) = (Inl e2, r2)" and l2: "isRateLimit e2" by blast
  define s2 where "s2 = s1\<lparr>remote := r2,
            trace := trace s1 @
              [GetCaseHTML (case_id c),
               Send (RateLimited (backoff (Suc (Suc 0))) (length (caseTexts s1)) n),
               Wait Backoff (backoff (Suc (Suc 0)))]\<rparr>"
  from limited [of "case_id c" "remote s2"] obtain e3 r3 where
    c3: "g (case_id c) (remote s2) = (Inl e3, r3)" and l3: "isRateLimit e3" by blast
  have "fetch_attempts g pt n c 0 s = fetch_attempts g pt n c (Suc 0) s1"
    unfolding s1_def using c1 l1 by (intro fetch_attempts_retry) (simp_all add: MAX_RETRIES_def)
  also have "\<dots> = fetch_attempts g pt n c (Suc (Suc 0)) s2"
    unfolding s2_def using c2 l2 by (intro fetch_attempts_retry) (simp_all add: MAX_RETRIES_def)
  also have "\<dots> = (False, s2\<lparr>remote := r3, trace := trace s2 @ [GetCaseHTML (case_id c)],
                 consecutiveFails := Suc (consecutiveFails s2)\<rparr>)"
    using c3 by (intro fetch_attempts_skip) (simp_all add: MAX_RETRIES_def)
  finally have "fetch_attempts g pt n c 0 s = (False, s2\<lparr>remote := r3, trace := trace s2 @ [GetCaseHTML (case_id c)],
                 consecutiveFails := Suc (consecutiveFails s2)\<rparr>)" .
  then show ?thesis
    by (simp add: s1_def s2_def backoff_def)
qed

lemma fetch_iteration_rate_limited:
  assumes limited: "\<And>i r. \<exists>err r'. g i r = (Inl err, r') \<and> isRateLimit err"
  shows "filter is_attempt (trace (fetch_iteration g pt cases i s))
           = filter is_attempt (trace s) @ item_attempts (cases ! i)
         \<and> caseTexts (fetch_iteration g pt cases i s) = caseTexts s"
proof -
  from fetch_attempts_rate_limited [of g pt "length cases" "cases ! i" s, OF limited]
  obtain s1 where run: "fetch_attempts g pt (length cases) (cases ! i) 0 s = (False, s1)"
    and tr: "trace s1 = trace s @
                [GetCaseHTML (case_id (cases ! i)),
                 Send (RateLimited (min (5000 * 2 ^ 1) 30000) (length (caseTexts s)) (length cases)),
                 Wait Backoff (min (5000 * 2 ^ 1) 30000),
                 GetCaseHTML (case_id (cases ! i)),
                 Send (RateLimited (min (5000 * 2 ^ 2) 30000) (length (caseTexts s)) (length cases)),
                 Wait Backoff (min (5000 * 2 ^ 2) 30000),
                 GetCaseHTML (case_id (cases ! i))]"
    and ct: "caseTexts s1 = caseTexts s"
    by blast
  have "filter is_attempt (trace s1) = filter is_attempt (trace s) @ item_attempts (cases ! i)"
    unfolding tr by (simp add: is_attempt_def item_attempts_def)
  then show ?thesis
    by (simp add: fetch_iteration_fields [OF run] iteration_events_attempts ct)
qed

lemma fetch_loop_rate_limited:
  fixes s :: "'r fetch_state"
  assumes limited: "\<And>i r. \<exists>err r'. g i r = (Inl err, r') \<and> isRateLimit err"
  shows "filter is_attempt (trace (fetch_loop g pt cases 0 s))
           = filter is_attempt (trace s) @ concat (map item_attempts cases)
         \<and> caseTexts (fetch_loop g pt cases 0 s) = caseTexts s"
proof -
  let ?P = "\<lambda>j (t :: 'r fetch_state). filter is_attempt (trace t)
                  = filter is_attempt (trace s) @ concat (map item_attempts (take j cases))
                \<and> caseTexts t = caseTexts s"
  have "?P (length cases) (fetch_loop g pt cases 0 s)"
  proof (rule fetch_loop_invariant [where P = ?P])
    show "?P 0 s" by simp
  next
    fix j and t :: "'r fetch_state"
    assume "j < length cases" and "?P j t"
    then show "?P (Suc j) (fetch_iteration g pt cases j t)"
      using fetch_iteration_rate_limited [of g pt cases j t, OF limited]
      by (simp add: take_Suc_conv_app_nth)
  qed simp
  then show ?thesis by simp
qed

lemma fetch_attempts_all_fail:
  assumes failing: "\<And>i r. \<exists>err r'. g i r = (Inl err, r')"
    and run: "fetch_attempts g pt n c 0 s = (ok, s1)"
  shows "\<not> ok \<and> caseTexts s1 = caseTexts s"
proof -
  note out = fetch_attempts_outcome [OF zero_lt_MAX_RETRIES run]
  have "\<not> ok"
  proof
    assume ok
    with out obtain r0 html r' where "g (case_id c) r0 = (Inr html, r')" by blast
    with failing [of "case_id c" r0] show False by auto
  qed
  with out show ?thesis by simp
qed













text \<open>
  C4. The consecutive-failure counter starts at 0. At every attempt of an item
  (\<open>retries\<close> below the ceiling of 3): a fetched document ends the attempts with the text
  pushed and the counter at 0; a failure that is not rate-limit-classified, or any failure
  at the last attempt, ends them at once with the counter one higher; a rate-limited
  failure with attempts left waits for the backoff and tries again. So the attempts on an
  item leave the counter at 0 when the item is fetched and one higher when it fails; the
  iteration then resets it to 0 exactly when it has reached 5, and pauses for the 30 s
  cooldown exactly once in that case and not otherwise. At every iteration boundary of
  the loop the counter is below 5.
\<close>

theorem consecutiveFails_state_machine:
  "consecutiveFails (fetch_init cases w) = 0
   \<and> (\<forall>i (s :: 'r fetch_state) ok s1.
         i < length cases
         \<and> fetch_attempts getCaseHTML plainText (length cases) (cases ! i) 0 s = (ok, s1)
         \<longrightarrow> consecutiveFails s1 = (if ok then 0 else Suc (consecutiveFails s))
             \<and> consecutiveFails (fetch_iteration getCaseHTML plainText cases i s)
                 = (if 5 \<le> consecutiveFails s1 then 0 else consecutiveFails s1)
             \<and> (\<exists>es. trace (fetch_iteration getCaseHTML plainText cases i s) = trace s @ es
                    \<and> filter is_failure_cooldown es
                        = (if 5 \<le> consecutiveFails s1 then [Wait FailureCooldown 30000] else [])))
   \<and> (\<forall>(c :: case_item) n retries (s :: 'r fetch_state) html r.
         retries < MAX_RETRIES \<and> getCaseHTML (case_id c) (remote s) = (Inr html, r)
         \<longrightarrow> fetch_attempts getCaseHTML plainText n c retries s
               = (True, s\<lparr>remote := r, trace := trace s @ [GetCaseHTML (case_id c)],
                          caseTexts := caseTexts s @ [mk_text c (plainText html)],
                          consecutiveFails := 0\<rparr>))
   \<and> (\<forall>(c :: case_item) n retries (s :: 'r fetch_state) err r.
         retries < MAX_RETRIES \<and> getCaseHTML (case_id c) (remote s) = (Inl err, r)
         \<and> (\<not> isRateLimit err \<or> Suc retries = MAX_RETRIES)
         \<longrightarrow> fetch_attempts getCaseHTML plainText n c retries s
               = (False, s\<lparr>remote := r, trace := trace s @ [GetCaseHTML (case_id c)],
                           consecutiveFails := Suc (consecutiveFails s)\<rparr>))
   \<and> (\<forall>(c :: case_item) n retries (s :: 'r fetch_state) err r.
         Suc retries < MAX_RETRIES \<and> getCaseHTML (case_id c) (remote s) = (Inl err, r)
         \<and> isRateLimit err
         \<longrightarrow> fetch_attempts getCaseHTML plainText n c retries s
               = fetch_attempts getCaseHTML plainText n c (Suc retries)
                   (s\<lparr>remote := r,
                      trace := trace s @
                        [GetCaseHTML (case_id c),
                         Send (RateLimited (min (5000 * 2 ^ Suc retries) 30000)
                                 (length (caseTexts s)) n),
                         Wait Backoff (min (5000 * 2 ^ Suc retries) 30000)]\<rparr>))
   \<and> MAX_RETRIES = 3
   \<and> (\<forall>i (s :: 'r fetch_state) html r.
         i < length cases \<and> getCaseHTML (case_id (cases ! i)) (remote s) = (Inr html, r)
         \<longrightarrow> consecutiveFails (fetch_iteration getCaseHTML plainText cases i s) = 0
             \<and> caseTexts (fetch_iteration getCaseHTML plainText cases i s)
                 = caseTexts s @ [mk_text (cases ! i) (plainText html)]
             \<and> (\<exists>es. trace (fetch_iteration getCaseHTML plainText cases i s) = trace s @ es
                    \<and> filter is_failure_cooldown es = []
                    \<and> filter is_attempt es = [GetCaseHTML (case_id (cases ! i))]))
   \<and> (\<forall>k. k \<le> length cases
         \<longrightarrow> consecutiveFails
               (fetch_state_at getCaseHTML plainText cases (fetch_init cases w) k) < 5)
   \<and> fetch_loop getCaseHTML plainText cases 0 (fetch_init cases w)
       = fetch_state_at getCaseHTML plainText cases (fetch_init cases w) (length cases)"
proof (intro conjI allI impI)
  show "consecutiveFails (fetch_init cases w) = 0"
    by (simp add: fetch_init_def)
next
  fix i and s :: "'r fetch_state" and ok s1
  assume "i < length cases
         \<and> fetch_attempts getCaseHTML plainText (length cases) (cases ! i) 0 s = (ok, s1)"
  then have run: "fetch_attempts getCaseHTML plainText (length cases) (cases ! i) 0 s = (ok, s1)"
    by simp
  from fetch_attempts_outcome [OF zero_lt_MAX_RETRIES run]
  show cf: "consecutiveFails s1 = (if ok then 0 else Suc (consecutiveFails s))"
    by (simp split: if_splits)
  show "consecutiveFails (fetch_iteration getCaseHTML plainText cases i s)
                 = (if 5 \<le> consecutiveFails s1 then 0 else consecutiveFails s1)"
    by (rule fetch_iteration_fields(2) [OF run])
  from fetch_iteration_effect(2) [OF run] cf
  show "\<exists>es. trace (fetch_iteration getCaseHTML plainText cases i s) = trace s @ es
                    \<and> filter is_failure_cooldown es
                        = (if 5 \<le> consecutiveFails s1 then [Wait FailureCooldown 30000] else [])"
    by (cases ok) simp_all
next
  fix c :: case_item and n retries and s :: "'r fetch_state" and html r
  assume "retries < MAX_RETRIES \<and> getCaseHTML (case_id c) (remote s) = (Inr html, r)"
  then show "fetch_attempts getCaseHTML plainText n c retries s
               = (True, s\<lparr>remote := r, trace := trace s @ [GetCaseHTML (case_id c)],
                          caseTexts := caseTexts s @ [mk_text c (plainText html)],
                          consecutiveFails := 0\<rparr>)"
    by (simp add: fetch_attempts_ok)
next
  fix c :: case_item and n retries and s :: "'r fetch_state" and err r
  assume h: "retries < MAX_RETRIES \<and> getCaseHTML (case_id c) (remote s) = (Inl err, r)
         \<and> (\<not> isRateLimit err \<or> Suc retries = MAX_RETRIES)"
  then have last_or_permanent: "\<not> (isRateLimit err \<and> Suc retries < MAX_RETRIES)"
    by auto
  show "fetch_attempts getCaseHTML plainText n c retries s
               = (False, s\<lparr>remote := r, trace := trace s @ [GetCaseHTML (case_id c)],
                           consecutiveFails := Suc (consecutiveFails s)\<rparr>)"
  proof (rule fetch_attempts_skip)
    show "retries < MAX_RETRIES" using h by simp
    show "getCaseHTML (case_id c) (remote s) = (Inl err, r)" using h by simp
    show "\<not> (isRateLimit err \<and> Suc retries < MAX_RETRIES)" by (rule last_or_permanent)
  qed
next
  fix c :: case_item and n retries and s :: "'r fetch_state" and err r
  assume h: "Suc retries < MAX_RETRIES \<and> getCaseHTML (case_id c) (remote s) = (Inl err, r)
         \<and> isRateLimit err"
  have "fetch_attempts getCaseHTML plainText n c retries s
               = fetch_attempts getCaseHTML plainText n c (Suc retries)
                   (s\<lparr>remote := r,
                      trace := trace s @
                        [GetCaseHTML (case_id c),
                         Send (RateLimited (backoff (Suc retries)) (length (caseTexts s)) n),
                         Wait Backoff (backoff (Suc retries))]\<rparr>)"
  proof (rule fetch_attempts_retry)
    show "Suc retries < MAX_RETRIES" using h by simp
    show "getCaseHTML (case_id c) (remote s) = (Inl err, r)" using h by simp
    show "isRateLimit err" using h by simp
  qed
  then show "fetch_attempts getCaseHTML plainText n c retries s
               = fetch_attempts getCaseHTML plainText n c (Suc retries)
                   (s\<lparr>remote := r,
                      trace := trace s @
                        [GetCaseHTML (case_id c),
                         Send (RateLimited (min (5000 * 2 ^ Suc retries) 30000)
                                 (length (caseTexts s)) n),
                         Wait Backoff (min (5000 * 2 ^ Suc retries) 30000)]\<rparr>)"
    by (simp add: backoff_def)
next
  show "MAX_RETRIES = 3" by (simp add: MAX_RETRIES_def)
next
  fix i and s :: "'r fetch_state" and html r
  assume "i < length cases \<and> getCaseHTML (case_id (cases ! i)) (remote s) = (Inr html, r)"
  then have call: "getCaseHTML (case_id (cases ! i)) (remote s) = (Inr html, r)" by simp
  let ?s1 = "s\<lparr>remote := r, trace := trace s @ [GetCaseHTML (case_id (cases ! i))],
                caseTexts := caseTexts s @ [mk_text (cases ! i) (plainText html)],
                consecutiveFails := 0\<rparr>"
  have run: "fetch_attempts getCaseHTML plainText (length cases) (cases ! i) 0 s = (True, ?s1)"
    using call by (simp add: fetch_attempts_ok zero_lt_MAX_RETRIES)
  show "consecutiveFails (fetch_iteration getCaseHTML plainText cases i s) = 0"
    by (simp add: fetch_iteration_fields(2) [OF run])
  show "caseTexts (fetch_iteration getCaseHTML plainText cases i s)
                 = caseTexts s @ [mk_text (cases ! i) (plainText html)]"
    by (simp add: fetch_iteration_fields(1) [OF run])
  have "trace (fetch_iteration getCaseHTML plainText cases i s)
          = trace s @ (GetCaseHTML (case_id (cases ! i)) # iteration_events (length cases) i ?s1)"
    by (simp add: fetch_iteration_fields(3) [OF run])
  moreover have "filter is_failure_cooldown
        (GetCaseHTML (case_id (cases ! i)) # iteration_events (length cases) i ?s1) = []"
    by (simp add: iteration_events_cooldown is_failure_cooldown_def)
  moreover have "filter is_attempt
        (GetCaseHTML (case_id (cases ! i)) # iteration_events (length cases) i ?s1)
          = [GetCaseHTML (case_id (cases ! i))]"
    by (simp add: iteration_events_attempts is_attempt_def)
  ultimately show "\<exists>es. trace (fetch_iteration getCaseHTML plainText cases i s) = trace s @ es
                    \<and> filter is_failure_cooldown es = []
                    \<and> filter is_attempt es = [GetCaseHTML (case_id (cases ! i))]"
    by blast
next
  fix k
  show "consecutiveFails
               (fetch_state_at getCaseHTML plainText cases (fetch_init cases w) k) < 5"
    by (rule fetch_state_at_below_threshold) (simp add: fetch_init_def)
next
  show "fetch_loop getCaseHTML plainText cases 0 (fetch_init cases w)
       = fetch_state_at getCaseHTML plainText cases (fetch_init cases w) (length cases)"
    using fetch_loop_from_boundary [of 0 cases getCaseHTML plainText "fetch_init cases w"]
    by simp
qed

text \<open>
  A concrete run: five cases, a remote on which every fetch fails with an error that is
  not rate-limit-classified, and an empty trace to start from.
\<close>

definition failing_api :: "unit fetch_api" where
  "failing_api i r = (Inl \<lparr>message = ''down'', status = None\<rparr>, r)"

definition five_cases :: "case_item list" where
  "five_cases = [mk_case ''1'' ''A'', mk_case ''2'' ''B'', mk_case ''3'' ''C'', mk_case ''4'' ''D'',
                 mk_case ''5'' ''E'']"

definition start_world :: "unit world" where
  "start_world = \<lparr>remote = (), trace = []\<rparr>"

lemmas run_simps = fetch_loop.simps fetch_iteration_def fetch_attempts.simps fetch_init_def
  MAX_RETRIES_def isRateLimit_def mk_case_def progress_line_def failure_cooldown_def
  base_delay_def periodic_cooldown_def emit_def backoff_def

lemma fetch_state_at_numeral:
  "fetch_state_at g pt cases s0 (numeral k)
     = fetch_iteration g pt cases (pred_numeral k) (fetch_state_at g pt cases s0 (pred_numeral k))"
  by (simp add: numeral_eq_Suc)

text \<open>
  A second run: three cases and a remote that answers from a script. The first fetch of
  case 1 is rate-limited, the second fails with another error; case 2 is fetched; case 3
  fails.
\<close>

definition scripted_api :: "(js_error + string) list fetch_api" where
  "scripted_api i r =
     (case r of [] \<Rightarrow> (Inl \<lparr>message = ''end of script'', status = None\<rparr>, [])
              | x # rest \<Rightarrow> (x, rest))"

definition three_cases :: "case_item list" where
  "three_cases = [mk_case ''1'' ''A'', mk_case ''2'' ''B'', mk_case ''3'' ''C'']"

definition scripted_world :: "(js_error + string) list world" where
  "scripted_world =
     \<lparr>remote = [Inl \<lparr>message = ''409 Conflict'', status = Some 409\<rparr>,
                Inl \<lparr>message = ''down'', status = None\<rparr>,
                Inr ''<p>x</p>'',
                Inl \<lparr>message = ''down'', status = None\<rparr>],
      trace = []\<rparr>"

theorem consecutiveFails_state_machine_witness:
  "consecutiveFails (fetch_state_at failing_api id five_cases (fetch_init five_cases start_world) 4) = 4
   \<and> fst (fetch_attempts failing_api id (length five_cases) (five_cases ! 4) 0
          (fetch_state_at failing_api id five_cases (fetch_init five_cases start_world) 4)) = False
   \<and> consecutiveFails (fetch_iteration failing_api id five_cases 4
        (fetch_state_at failing_api id five_cases (fetch_init five_cases start_world) 4)) = 0
   \<and> filter is_failure_cooldown
        (trace (fetch_loop failing_api id five_cases 0 (fetch_init five_cases start_world)))
       = [Wait FailureCooldown 30000]
   \<and> consecutiveFails (fetch_loop failing_api id five_cases 0 (fetch_init five_cases start_world)) = 0
   \<and> consecutiveFails
        (fetch_state_at scripted_api id three_cases (fetch_init three_cases scripted_world) 1) = 1
   \<and> remote (fetch_state_at scripted_api id three_cases (fetch_init three_cases scripted_world) 1)
       = [Inr ''<p>x</p>'', Inl \<lparr>message = ''down'', status = None\<rparr>]
   \<and> consecutiveFails
        (fetch_state_at scripted_api id three_cases (fetch_init three_cases scripted_world) 2) = 0
   \<and> caseTexts
        (fetch_state_at scripted_api id three_cases (fetch_init three_cases scripted_world) 2)
       = [mk_text (mk_case ''2'' ''B'') ''<p>x</p>'']
   \<and> consecutiveFails
        (fetch_loop scripted_api id three_cases 0 (fetch_init three_cases scripted_world)) = 1
   \<and> caseTexts (fetch_loop scripted_api id three_cases 0 (fetch_init three_cases scripted_world))
       = [mk_text (mk_case ''2'' ''B'') ''<p>x</p>'']
   \<and> filter is_attempt
        (trace (fetch_loop scripted_api id three_cases 0 (fetch_init three_cases scripted_world)))
       = [GetCaseHTML ''1'', Wait Backoff 10000, GetCaseHTML ''1'', GetCaseHTML ''2'',
          GetCaseHTML ''3'']"
proof -
  let ?s0 = "fetch_init five_cases start_world"
  let ?s4 = "fetch_state_at failing_api id five_cases ?s0 4"
  have at4: "consecutiveFails ?s4 = 4"
    by (simp add: run_simps five_cases_def failing_api_def start_world_def fetch_state_at_numeral)
  obtain ok s1 where
    run: "fetch_attempts failing_api id (length five_cases) (five_cases ! 4) 0 ?s4 = (ok, s1)"
    by force
  have failed: "\<not> ok"
    using fetch_attempts_all_fail [OF _ run] by (simp add: failing_api_def)
  have len: "4 < length five_cases"
    by (simp add: five_cases_def)
  note step = consecutiveFails_state_machine [of five_cases start_world failing_api id,
      THEN conjunct2, THEN conjunct1, rule_format, of 4 ?s4 ok s1, OF conjI, OF len run]
  from step failed at4 have it: "consecutiveFails (fetch_iteration failing_api id five_cases 4 ?s4) = 0"
    by simp
  have cool: "filter is_failure_cooldown (trace (fetch_loop failing_api id five_cases 0 ?s0))
       = [Wait FailureCooldown 30000]"
    by (simp add: run_simps five_cases_def failing_api_def start_world_def is_failure_cooldown_def)
  have fin: "consecutiveFails (fetch_loop failing_api id five_cases 0 ?s0) = 0"
    by (simp add: run_simps five_cases_def failing_api_def start_world_def)
  let ?t0 = "fetch_init three_cases scripted_world"
  let ?t1 = "fetch_state_at scripted_api id three_cases ?t0 1"
  let ?t2 = "fetch_state_at scripted_api id three_cases ?t0 2"
  have t1_fails: "consecutiveFails ?t1 = 1"
    by (simp add: run_simps three_cases_def scripted_api_def scripted_world_def str_includes.simps)
  have t1_remote: "remote ?t1 = [Inr ''<p>x</p>'', Inl \<lparr>message = ''down'', status = None\<rparr>]"
    by (simp add: run_simps three_cases_def scripted_api_def scripted_world_def str_includes.simps)
  have t1_texts: "caseTexts ?t1 = []"
    by (simp add: run_simps three_cases_def scripted_api_def scripted_world_def str_includes.simps)
  have len3: "1 < length three_cases"
    by (simp add: three_cases_def)
  have call: "scripted_api (case_id (three_cases ! 1)) (remote ?t1)
                = (Inr ''<p>x</p>'', [Inl \<lparr>message = ''down'', status = None\<rparr>])"
    unfolding t1_remote by (simp add: scripted_api_def)
  note fetched = consecutiveFails_state_machine [of three_cases scripted_world scripted_api id,
      THEN conjunct2, THEN conjunct2, THEN conjunct2, THEN conjunct2, THEN conjunct2,
      THEN conjunct2, THEN conjunct1, rule_format, of 1 ?t1 "''<p>x</p>''"
        "[Inl \<lparr>message = ''down'', status = None\<rparr>]", OF conjI, OF len3 call]
  have t2_eq: "?t2 = fetch_iteration scripted_api id three_cases 1 ?t1"
    by (simp add: fetch_state_at_numeral)
  have t2_fails: "consecutiveFails ?t2 = 0"
    unfolding t2_eq by (rule fetched [THEN conjunct1])
  have "caseTexts ?t2 = caseTexts ?t1 @ [mk_text (three_cases ! 1) (id ''<p>x</p>'')]"
    unfolding t2_eq by (rule fetched [THEN conjunct2, THEN conjunct1])
  then have t2_texts: "caseTexts ?t2 = [mk_text (mk_case ''2'' ''B'') ''<p>x</p>'']"
    unfolding t1_texts by (simp add: three_cases_def)
  have end_fails: "consecutiveFails (fetch_loop scripted_api id three_cases 0 ?t0) = 1"
    by (simp add: run_simps three_cases_def scripted_api_def scripted_world_def str_includes.simps)
  have end_texts: "caseTexts (fetch_loop scripted_api id three_cases 0 ?t0)
                     = [mk_text (mk_case ''2'' ''B'') ''<p>x</p>'']"
    by (simp add: run_simps three_cases_def scripted_api_def scripted_world_def str_includes.simps)
  have end_trace: "filter is_attempt (trace (fetch_loop scripted_api id three_cases 0 ?t0))
       = [GetCaseHTML ''1'', Wait Backoff 10000, GetCaseHTML ''1'', GetCaseHTML ''2'',
          GetCaseHTML ''3'']"
    by (simp add: run_simps three_cases_def scripted_api_def scripted_world_def str_includes.simps
                  is_attempt_def)
  from at4 run failed it cool fin t1_fails t1_remote t2_fails t2_texts end_fails end_texts end_trace
  show ?thesis by simp
qed

lemma fetch_init_fields [simp]:
  "trace (fetch_init cases w) = trace w @ [Send (Reading 0 (length cases))]"
  "caseTexts (fetch_init cases w) = []"
  "consecutiveFails (fetch_init cases w) = 0"
  "remote (fetch_init cases w) = remote w"
  by (simp_all add: fetch_init_def)

text \<open>
  C1. When every fetch throws a rate-limit-classified error (its message contains
  \<open>409\<close> or \<open>limit\<close>), the attempts on an item are exactly three calls of
  \<open>getCaseHTML\<close>, with a pause of \<open>min (5000 * 2 ^ 1) 30000\<close> ms after the first
  failure and of \<open>min (5000 * 2 ^ 2) 30000\<close> ms after the second; the third failure ends
  the item without a text, counted as one failure, and the loop goes on. Over the whole
  work list the fetch calls and backoff pauses are these five events per item, in list
  order, no text is collected, and the skipped count is the length of the list.
\<close>

theorem rate_limited_items_skipped:
  fixes w :: "'r world"
  assumes limited: "\<And>i r. \<exists>err r'. getCaseHTML i r = (Inl err, r') \<and> isRateLimit err"
  shows "(\<forall>c n (s :: 'r fetch_state). \<exists>s'.
            fetch_attempts getCaseHTML plainText n c 0 s = (False, s')
            \<and> trace s' = trace s @
                 [GetCaseHTML (case_id c),
                  Send (RateLimited (min (5000 * 2 ^ 1) 30000) (length (caseTexts s)) n),
                  Wait Backoff (min (5000 * 2 ^ 1) 30000),
                  GetCaseHTML (case_id c),
                  Send (RateLimited (min (5000 * 2 ^ 2) 30000) (length (caseTexts s)) n),
                  Wait Backoff (min (5000 * 2 ^ 2) 30000),
                  GetCaseHTML (case_id c)]
            \<and> caseTexts s' = caseTexts s
            \<and> consecutiveFails s' = Suc (consecutiveFails s))
       \<and> filter is_attempt (trace (fetch_loop getCaseHTML plainText cases 0 (fetch_init cases w)))
           = filter is_attempt (trace w) @ concat (map item_attempts cases)
       \<and> caseTexts (fetch_loop getCaseHTML plainText cases 0 (fetch_init cases w)) = []
       \<and> skippedCount cases (fetch_loop getCaseHTML plainText cases 0 (fetch_init cases w))
           = int (length cases)
       \<and> (cases \<noteq> [] \<longrightarrow>
            fst (fetch_step getCaseHTML plainText cases w) = Some ([], int (length cases)))"
proof -
  let ?final = "fetch_loop getCaseHTML plainText cases 0 (fetch_init cases w)"
  have item: "\<forall>c n (s :: 'r fetch_state). \<exists>s'.
            fetch_attempts getCaseHTML plainText n c 0 s = (False, s')
            \<and> trace s' = trace s @
                 [GetCaseHTML (case_id c),
                  Send (RateLimited (min (5000 * 2 ^ 1) 30000) (length (caseTexts s)) n),
                  Wait Backoff (min (5000 * 2 ^ 1) 30000),
                  GetCaseHTML (case_id c),
                  Send (RateLimited (min (5000 * 2 ^ 2) 30000) (length (caseTexts s)) n),
                  Wait Backoff (min (5000 * 2 ^ 2) 30000),
                  GetCaseHTML (case_id c)]
            \<and> caseTexts s' = caseTexts s
            \<and> consecutiveFails s' = Suc (consecutiveFails s)"
    using fetch_attempts_rate_limited [of getCaseHTML, OF limited] by blast
  from fetch_loop_rate_limited [of getCaseHTML plainText cases "fetch_init cases w", OF limited]
  have tr: "filter is_attempt (trace ?final)
           = filter is_attempt (trace w) @ concat (map item_attempts cases)"
    and texts: "caseTexts ?final = []"
    by (simp_all add: is_attempt_def)
  from texts have skipped: "skippedCount cases ?final = int (length cases)"
    by (simp add: skippedCount_def)
  from texts skipped
  have step: "cases \<noteq> [] \<longrightarrow>
            fst (fetch_step getCaseHTML plainText cases w) = Some ([], int (length cases))"
    by (simp add: fetch_step_def Let_def)
  from item tr texts skipped step show ?thesis by blast
qed

text \<open>A remote that answers every fetch with status 409, and two cases.\<close>

definition limited_api :: "unit fetch_api" where
  "limited_api i r = (Inl \<lparr>message = ''409'', status = Some 409\<rparr>, r)"

definition two_cases :: "case_item list" where
  "two_cases = [mk_case ''1'' ''A'', mk_case ''2'' ''B'']"

theorem rate_limited_items_skipped_witness:
  "isRateLimit \<lparr>message = ''409'', status = Some 409\<rparr>
   \<and> filter is_attempt (trace (fetch_loop limited_api id two_cases 0 (fetch_init two_cases start_world)))
       = [GetCaseHTML ''1'', Wait Backoff 10000, GetCaseHTML ''1'', Wait Backoff 20000, GetCaseHTML ''1'',
          GetCaseHTML ''2'', Wait Backoff 10000, GetCaseHTML ''2'', Wait Backoff 20000, GetCaseHTML ''2'']
   \<and> fst (fetch_step limited_api id two_cases start_world) = Some ([], 2)"
proof -
  have rl: "isRateLimit \<lparr>message = ''409'', status = Some 409\<rparr>"
    by (simp add: isRateLimit_def)
  then have limited: "\<And>i r. \<exists>err r'. limited_api i r = (Inl err, r') \<and> isRateLimit err"
    by (simp add: limited_api_def)
  note inst = rate_limited_items_skipped [where getCaseHTML = limited_api and cases = two_cases
      and w = start_world and plainText = id, OF limited]
  from inst have "filter is_attempt (trace (fetch_loop limited_api id two_cases 0 (fetch_init two_cases start_world)))
       = filter is_attempt (trace start_world) @ concat (map item_attempts two_cases)"
    by (elim conjE)
  moreover from inst have "two_cases \<noteq> [] \<longrightarrow>
       fst (fetch_step limited_api id two_cases start_world) = Some ([], int (length two_cases))"
    by (elim conjE)
  ultimately show ?thesis using rl
    by (simp add: two_cases_def start_world_def item_attempts_def mk_case_def)
qed

section \<open>Bulk download (src/unnamed/part\_004, \<open>downloadCase\<close> and \<open>downloadMultipleCases\<close>)\<close>

text \<open>
  The object \<open>downloadCase\<close> returns; absent fields are \<open>None\<close>. The source's fields
  \<open>id\<close>, \<open>size\<close> and \<open>error\<close> are \<open>download_id\<close>, \<open>file_size\<close> and \<open>error_text\<close>.
\<close>

record download_result =
  success :: bool
  skipped :: bool
  download_id :: string
  path :: "string option"
  file_size :: "nat option"
  error_text :: "string option"












subsection \<open>Properties of the bulk download\<close>
















section \<open>Summaries with a cache (src/analyzer.js, \<open>summarizeAll\<close>)\<close>

text \<open>
  The cache maps a case id to the object \<open>{ filename, summary }\<close> that \<open>summarizeAll\<close>
  stores (its JSDoc: map of id to \<open>{filename, summary}\<close>); the file
  \<open>downloads/summaries.json\<close> is only ever written by \<open>saveSummaries\<close>.
\<close>

record summary_entry =
  entry_filename :: string
  entry_summary :: string

type_synonym summaries = "string \<rightharpoonup> summary_entry"

text \<open>
  The state: the outside world with its trace, and the content of the summaries file,
  \<open>None\<close> when the file is missing or does not parse.
\<close>

record 'r analyzer_state = "'r world" +
  summariesFile :: "summaries option"

text \<open>
  \<^verbatim>\<open>
  function loadSummaries() {
      try {
          if (fs.existsSync(SUMMARIES_FILE)) return JSON.parse(fs.readFileSync(SUMMARIES_FILE, 'utf-8'));
      } catch { /* ignore */ }
      return {};
  }
  \<close>
\<close>

definition loadSummaries :: "'r analyzer_state \<Rightarrow> summaries" where
  "loadSummaries st = (case summariesFile st of Some cached \<Rightarrow> cached | None \<Rightarrow> Map.empty)"

text \<open>
  \<open>saveSummaries\<close> is one \<open>fs.writeFileSync\<close>, which throws when the disk refuses the
  write; \<open>writeFails\<close> reads that off the outside world.
\<close>

definition saveSummaries ::
  "('r \<Rightarrow> js_error option) \<Rightarrow> summaries \<Rightarrow> 'r analyzer_state \<Rightarrow> js_error option \<times> 'r analyzer_state" where
  "saveSummaries writeFails cached st =
     (case writeFails (remote st) of
        Some err \<Rightarrow> (Some err, st\<lparr>trace := trace st @ [SaveSummaries]\<rparr>)
      | None \<Rightarrow> (None, st\<lparr>trace := trace st @ [SaveSummaries], summariesFile := Some cached\<rparr>))"

text \<open>
  \<open>cached[c.id]\<close> is truthy when the cache has an entry for the id (an object), and also
  when the id names a property every object inherits from \<open>Object.prototype\<close>.
\<close>

definition objectPrototypeKeys :: "string list" where
  "objectPrototypeKeys =
     [''constructor'', ''__defineGetter__'', ''__defineSetter__'', ''hasOwnProperty'',
      ''__lookupGetter__'', ''__lookupSetter__'', ''isPrototypeOf'', ''propertyIsEnumerable'',
      ''toString'', ''valueOf'', ''__proto__'', ''toLocaleString'']"

definition cache_hit :: "summaries \<Rightarrow> string \<Rightarrow> bool" where
  "cache_hit cached i = (cached i \<noteq> None \<or> i \<in> set objectPrototypeKeys)"

text \<open>
  \<open>summarizeCase\<close> is one call of the language-model service for a case (keywords and
  context are fixed for a run); it returns the summary or rejects.
  \<open>Promise.allSettled(batch.map(c => summarizeCase(...)))\<close> issues the calls in batch
  order and collects every outcome, fulfilled or rejected, in that order.
\<close>

type_synonym 'r summarize_api = "case_text \<Rightarrow> 'r \<Rightarrow> (js_error + string) \<times> 'r"

definition BATCH_SIZE :: nat where
  "BATCH_SIZE = 5"

fun settle_all ::
  "'r summarize_api \<Rightarrow> case_text list \<Rightarrow> 'r analyzer_state
     \<Rightarrow> (js_error + string) list \<times> 'r analyzer_state" where
  "settle_all summarizeCase [] st = ([], st)"
| "settle_all summarizeCase (c # cs) st =
     (case summarizeCase c (remote st) of
        (result, r) \<Rightarrow>
          (case settle_all summarizeCase cs
                  (st\<lparr>remote := r, trace := trace st @ [SummarizeCase (text_id c)]\<rparr>) of
             (rest, st') \<Rightarrow> (result # rest, st')))"

text \<open>
  \<^verbatim>\<open>
  results.forEach((result, j) => {
      const c = batch[j];
      if (result.status === 'fulfilled') {
          cached[c.id] = { filename: c.filename, summary: result.value };
          completed++;
      } else { console.log(...); }
  });
  \<close>
\<close>

fun store_results ::
  "case_text list \<Rightarrow> (js_error + string) list \<Rightarrow> summaries \<times> nat \<Rightarrow> summaries \<times> nat" where
  "store_results (c # cs) (Inr v # rs) (cached, completed) =
     store_results cs rs
       (cached(text_id c \<mapsto> \<lparr>entry_filename = filename c, entry_summary = v\<rparr>), Suc completed)"
| "store_results (c # cs) (Inl reason # rs) (cached, completed) =
     store_results cs rs (cached, completed)"
| "store_results cs rs acc = acc"

text \<open>
  \<^verbatim>\<open>
  for (let i = 0; i < uncached.length; i += BATCH_SIZE) {
      const batch = uncached.slice(i, i + BATCH_SIZE);
      const results = await Promise.allSettled(batch.map(c => summarizeCase(...)));
      results.forEach(...);
      saveSummaries(cached);
      if (i + BATCH_SIZE < uncached.length) await new Promise(r => setTimeout(r, 200));
  }
  return cached;
  \<close>
  The settled \<open>results\<close> are called \<open>outcomes\<close>. A throwing \<open>saveSummaries\<close> is not caught: \<open>summarizeAll\<close> rejects with that error.
\<close>

function summarize_batches ::
  "'r summarize_api \<Rightarrow> ('r \<Rightarrow> js_error option) \<Rightarrow> case_text list \<Rightarrow> nat \<Rightarrow> summaries \<Rightarrow> nat
     \<Rightarrow> 'r analyzer_state \<Rightarrow> (js_error + summaries) \<times> 'r analyzer_state" where
  "summarize_batches summarizeCase writeFails uncached i cached completed st =
     (if i < length uncached then
        (let batch = take BATCH_SIZE (drop i uncached) in
         case settle_all summarizeCase batch st of
           (outcomes, st1) \<Rightarrow>
             (case store_results batch outcomes (cached, completed) of
                (cached', completed') \<Rightarrow>
                  (case saveSummaries writeFails cached' st1 of
                     (Some err, st2) \<Rightarrow> (Inl err, st2)
                   | (None, st2) \<Rightarrow>
                       summarize_batches summarizeCase writeFails uncached (i + BATCH_SIZE)
                         cached' completed'
                         (if i + BATCH_SIZE < length uncached
                          then st2\<lparr>trace := trace st2 @ [Wait BatchPause 200]\<rparr> else st2))))
      else (Inr cached, st))"
  by pat_completeness auto
termination
  by (relation "measure (\<lambda>(summarizeCase, writeFails, uncached, i, cached, completed, st).
                  length uncached - i)")
    (auto simp: BATCH_SIZE_def)

declare summarize_batches.simps [simp del]

text \<open>
  \<^verbatim>\<open>
  const cached = loadSummaries();
  const uncached = cases.filter(c => { if (cached[c.id]) { ...; return false; } return true; });
  if (uncached.length === 0) { ...; return cached; }
  ... the batches ...
  return cached;
  \<close>
\<close>

definition summarizeAll ::
  "'r summarize_api \<Rightarrow> ('r \<Rightarrow> js_error option) \<Rightarrow> case_text list \<Rightarrow> 'r analyzer_state
     \<Rightarrow> (js_error + summaries) \<times> 'r analyzer_state" where
  "summarizeAll summarizeCase writeFails cases st =
     (let cached = loadSummaries st;
          uncached = filter (\<lambda>c. \<not> cache_hit cached (text_id c)) cases
      in if length uncached = 0 then (Inr cached, st)
         else summarize_batches summarizeCase writeFails uncached 0 cached 0 st)"

subsection \<open>Properties of the cached summaries\<close>

lemma summarize_batches_end:
  "\<not> i < length uncached \<Longrightarrow>
   summarize_batches sc wr uncached i cached completed st = (Inr cached, st)"
  by (subst summarize_batches.simps) simp

lemma summarize_batches_step:
  "i < length uncached \<Longrightarrow>
   settle_all sc (take BATCH_SIZE (drop i uncached)) st = (outcomes, st1) \<Longrightarrow>
   store_results (take BATCH_SIZE (drop i uncached)) outcomes (cached, completed) = (cached', completed') \<Longrightarrow>
   saveSummaries wr cached' st1 = (None, st2) \<Longrightarrow>
   summarize_batches sc wr uncached i cached completed st
     = summarize_batches sc wr uncached (i + BATCH_SIZE) cached' completed'
         (if i + BATCH_SIZE < length uncached
          then st2\<lparr>trace := trace st2 @ [Wait BatchPause 200]\<rparr> else st2)"
  by (subst summarize_batches.simps) (simp add: Let_def)

lemma summarize_batches_write_error:
  "i < length uncached \<Longrightarrow>
   settle_all sc (take BATCH_SIZE (drop i uncached)) st = (outcomes, st1) \<Longrightarrow>
   store_results (take BATCH_SIZE (drop i uncached)) outcomes (cached, completed) = (cached', completed') \<Longrightarrow>
   saveSummaries wr cached' st1 = (Some err, st2) \<Longrightarrow>
   summarize_batches sc wr uncached i cached completed st = (Inl err, st2)"
  by (subst summarize_batches.simps) (simp add: Let_def)

text \<open>What a run may do to the cache \<open>base\<close> it loaded: add entries for the given ids.\<close>

definition extends_by :: "summaries \<Rightarrow> string set \<Rightarrow> summaries \<Rightarrow> bool" where
  "extends_by base ids m = (base \<subseteq>\<^sub>m m \<and> dom m \<subseteq> dom base \<union> ids)"

lemma extends_by_update:
  "extends_by base ids m \<Longrightarrow> k \<in> ids \<Longrightarrow> k \<notin> dom base \<Longrightarrow> extends_by base ids (m(k \<mapsto> v))"
  by (auto simp: extends_by_def map_le_def)

lemma store_results_extends:
  "extends_by base ids cached \<Longrightarrow> \<forall>c \<in> set batch. text_id c \<in> ids \<and> text_id c \<notin> dom base \<Longrightarrow>
   extends_by base ids (fst (store_results batch rs (cached, completed)))"
proof (induction batch rs "(cached, completed)" arbitrary: cached completed rule: store_results.induct)
  case (1 c cs v rs cached completed)
  from "1.prems" have "extends_by base ids (cached(text_id c \<mapsto> \<lparr>entry_filename = filename c, entry_summary = v\<rparr>))"
    by (simp add: extends_by_update)
  with "1.prems" "1.hyps" show ?case by simp
next
  case (2 c cs reason rs cached completed)
  then show ?case by simp
qed simp_all

lemma summarize_batches_extends:
  assumes ids: "\<forall>c \<in> set uncached. text_id c \<in> ids \<and> text_id c \<notin> dom base"
  shows "extends_by base ids cached \<Longrightarrow>
         summarize_batches sc wr uncached i cached completed st = (Inr m, st') \<Longrightarrow>
         extends_by base ids m"
proof (induction "length uncached - i" arbitrary: i cached completed st rule: less_induct)
  case less
  show ?case
  proof (cases "i < length uncached")
    case False
    with less.prems show ?thesis by (simp add: summarize_batches_end)
  next
    case True
    let ?batch = "take BATCH_SIZE (drop i uncached)"
    obtain outcomes st1 where settle: "settle_all sc ?batch st = (outcomes, st1)" by force
    obtain cached' completed' where
      store: "store_results ?batch outcomes (cached, completed) = (cached', completed')" by force
    obtain e st2 where save: "saveSummaries wr cached' st1 = (e, st2)" by force
    have "set ?batch \<subseteq> set uncached"
      by (meson set_take_subset set_drop_subset subset_trans)
    with ids have "\<forall>c \<in> set ?batch. text_id c \<in> ids \<and> text_id c \<notin> dom base" by blast
    from store_results_extends [OF less.prems(1) this, of outcomes completed] store
    have ext: "extends_by base ids cached'" by simp
    show ?thesis
    proof (cases e)
      case (Some err)
      with True settle store save less.prems(2) show ?thesis
        by (simp add: summarize_batches_write_error)
    next
      case None
      let ?st3 = "if i + BATCH_SIZE < length uncached
          then st2\<lparr>trace := trace st2 @ [Wait BatchPause 200]\<rparr> else st2"
      from None True settle store save less.prems(2)
      have run: "summarize_batches sc wr uncached (i + BATCH_SIZE) cached' completed' ?st3 = (Inr m, st')"
        by (simp add: summarize_batches_step)
      from True have "length uncached - (i + BATCH_SIZE) < length uncached - i"
        by (simp add: BATCH_SIZE_def)
      from less.hyps [OF this ext run] show ?thesis .
    qed
  qed
qed

lemma summarize_batches_returns:
  assumes writable: "\<And>r. wr r = None"
  shows "\<exists>m st'. summarize_batches sc wr uncached i cached completed st = (Inr m, st')"
proof (induction "length uncached - i" arbitrary: i cached completed st rule: less_induct)
  case less
  show ?case
  proof (cases "i < length uncached")
    case False
    then show ?thesis by (simp add: summarize_batches_end)
  next
    case True
    let ?batch = "take BATCH_SIZE (drop i uncached)"
    obtain outcomes st1 where settle: "settle_all sc ?batch st = (outcomes, st1)" by force
    obtain cached' completed' where
      store: "store_results ?batch outcomes (cached, completed) = (cached', completed')" by force
    have save: "saveSummaries wr cached' st1
        = (None, st1\<lparr>trace := trace st1 @ [SaveSummaries], summariesFile := Some cached'\<rparr>)"
      by (simp add: saveSummaries_def writable)
    from True have "length uncached - (i + BATCH_SIZE) < length uncached - i"
      by (simp add: BATCH_SIZE_def)
    from less.hyps [OF this] summarize_batches_step [OF True settle store save]
    show ?thesis by simp
  qed
qed

lemma filter_uncached_empty:
  "\<forall>c \<in> set cases. cached (text_id c) \<noteq> None \<Longrightarrow>
   filter (\<lambda>c. \<not> cache_hit cached (text_id c)) cases = []"
  by (induction cases) (simp_all add: cache_hit_def)

text \<open>
  C8. When every case of the list has an entry in the loaded cache, \<open>summarizeAll\<close>
  returns the loaded cache and leaves the state as it found it: the trace gains no
  summarization call and no cache write, and the summaries file is untouched.
\<close>

theorem summarizeAll_all_cached:
  assumes cached: "\<forall>c \<in> set cases. loadSummaries st (text_id c) \<noteq> None"
  shows "summarizeAll summarizeCase writeFails cases st = (Inr (loadSummaries st), st)
       \<and> trace (snd (summarizeAll summarizeCase writeFails cases st)) = trace st
       \<and> summariesFile (snd (summarizeAll summarizeCase writeFails cases st)) = summariesFile st"
  using filter_uncached_empty [OF cached] by (simp add: summarizeAll_def Let_def)

text \<open>A cache that holds case 1, a summarizer that always answers, a disk that takes every write.\<close>

definition text_of :: "string \<Rightarrow> string \<Rightarrow> case_text" where
  "text_of i h = mk_text (mk_case i h) ''body''"

definition old_entry :: summary_entry where
  "old_entry = \<lparr>entry_filename = ''A'', entry_summary = ''old''\<rparr>"

definition cached_world :: "unit analyzer_state" where
  "cached_world = \<lparr>remote = (), trace = [], summariesFile = Some [''1'' \<mapsto> old_entry]\<rparr>"

definition answering_api :: "unit summarize_api" where
  "answering_api c r = (Inr ''new'', r)"

definition writable_disk :: "unit \<Rightarrow> js_error option" where
  "writable_disk r = None"

theorem summarizeAll_all_cached_witness:
  "summarizeAll answering_api writable_disk [text_of ''1'' ''A'', text_of ''1'' ''A''] cached_world
     = (Inr [''1'' \<mapsto> old_entry], cached_world)"
proof -
  have hit: "\<forall>c \<in> set [text_of ''1'' ''A'', text_of ''1'' ''A''].
               loadSummaries cached_world (text_id c) \<noteq> None"
    by (simp add: loadSummaries_def cached_world_def text_of_def mk_text_def mk_case_def)
  have "loadSummaries cached_world = [''1'' \<mapsto> old_entry]"
    by (simp add: loadSummaries_def cached_world_def)
  with summarizeAll_all_cached [OF hit, of answering_api writable_disk] show ?thesis
    by simp
qed

text \<open>
  C10. Whenever \<open>summarizeAll\<close> returns a map, every entry of the loaded cache is in it
  with its value unchanged, and what differs from the loaded cache is a new entry for an
  id of the case list that the cache did not have. It does return a map whenever the
  summaries file can be written.
\<close>

theorem summarizeAll_keeps_cache:
  "(\<forall>m st'. summarizeAll summarizeCase writeFails cases st = (Inr m, st') \<longrightarrow>
       loadSummaries st \<subseteq>\<^sub>m m
       \<and> (\<forall>k v. loadSummaries st k = Some v \<longrightarrow> m k = Some v)
       \<and> (\<forall>k. m k \<noteq> loadSummaries st k \<longrightarrow>
             loadSummaries st k = None \<and> k \<in> text_id ` set cases))
   \<and> ((\<forall>r. writeFails r = None) \<longrightarrow>
        (\<exists>m st'. summarizeAll summarizeCase writeFails cases st = (Inr m, st')))"
proof (intro conjI allI impI)
  fix m st'
  assume run: "summarizeAll summarizeCase writeFails cases st = (Inr m, st')"
  let ?cached = "loadSummaries st"
  let ?uncached = "filter (\<lambda>c. \<not> cache_hit ?cached (text_id c)) cases"
  let ?ids = "text_id ` set cases"
  have start: "extends_by ?cached ?ids ?cached"
    by (simp add: extends_by_def)
  have ids: "\<forall>c \<in> set ?uncached. text_id c \<in> ?ids \<and> text_id c \<notin> dom ?cached"
    by (auto simp: cache_hit_def)
  have ext: "extends_by ?cached ?ids m"
  proof (cases "length ?uncached = 0")
    case True
    with run have "m = ?cached" by (auto simp: summarizeAll_def Let_def)
    with start show ?thesis by simp
  next
    case False
    with run have "summarize_batches summarizeCase writeFails ?uncached 0 ?cached 0 st = (Inr m, st')"
      by (simp add: summarizeAll_def Let_def)
    from summarize_batches_extends [OF ids start this] show ?thesis .
  qed
  then show le: "?cached \<subseteq>\<^sub>m m" by (simp add: extends_by_def)
  fix k
  {
    fix v
    assume "?cached k = Some v"
    with le show "m k = Some v" by (metis domI map_le_def)
  }
  assume diff: "m k \<noteq> ?cached k"
  with le show none: "?cached k = None" by (metis domIff map_le_def)
  with diff have "k \<in> dom m" by auto
  with ext none show "k \<in> ?ids" by (auto simp: extends_by_def)
next
  assume "\<forall>r. writeFails r = None"
  then have writable: "\<And>r. writeFails r = None" by blast
  show "\<exists>m st'. summarizeAll summarizeCase writeFails cases st = (Inr m, st')"
    using summarize_batches_returns [of writeFails summarizeCase, OF writable]
    by (simp add: summarizeAll_def Let_def)
qed

theorem summarizeAll_keeps_cache_witness:
  "\<exists>m st'. summarizeAll answering_api writable_disk [text_of ''1'' ''A'', text_of ''2'' ''B''] cached_world
              = (Inr m, st')
      \<and> m ''1'' = Some old_entry
      \<and> m ''2'' = Some \<lparr>entry_filename = ''B'', entry_summary = ''new''\<rparr>"
proof -
  note inst = summarizeAll_keeps_cache [of answering_api writable_disk
      "[text_of ''1'' ''A'', text_of ''2'' ''B'']" cached_world]
  have writable: "\<And>r. writable_disk r = None"
    by (simp add: writable_disk_def)
  from inst [THEN conjunct2, rule_format, OF writable] obtain m st' where
    run: "summarizeAll answering_api writable_disk [text_of ''1'' ''A'', text_of ''2'' ''B''] cached_world
            = (Inr m, st')" by blast
  have loaded: "loadSummaries cached_world ''1'' = Some old_entry"
    by (simp add: loadSummaries_def cached_world_def)
  from inst [THEN conjunct1, rule_format, OF run, THEN conjunct2, THEN conjunct1, rule_format, OF loaded]
  have kept: "m ''1'' = Some old_entry" .
  have "fst (summarizeAll answering_api writable_disk [text_of ''1'' ''A'', text_of ''2'' ''B''] cached_world)
          = Inr ([''1'' \<mapsto> old_entry, ''2'' \<mapsto> \<lparr>entry_filename = ''B'', entry_summary = ''new''\<rparr>])"
    by (simp add: summarizeAll_def Let_def loadSummaries_def cached_world_def cache_hit_def
        objectPrototypeKeys_def text_of_def mk_text_def mk_case_def summarize_batches.simps
        BATCH_SIZE_def answering_api_def saveSummaries_def writable_disk_def)
  with run have "m ''2'' = Some \<lparr>entry_filename = ''B'', entry_summary = ''new''\<rparr>"
    by auto
  with run kept show ?thesis by blast
qed

section \<open>Sessions (src/auth.js)\<close>

text \<open>The session object that \<open>login\<close> builds and persists.\<close>

record session =
  token :: string
  machineId :: string
  ipAddress :: string
  timestamp :: nat
  email :: string

text \<open>
  What \<open>getSession\<close> finds when it reads \<open>session.json\<close>, by the place where the
  \<open>try\<close> block is left: \<open>readFile\<close> throws; \<open>JSON.parse\<close> throws; the parsed value is
  \<open>null\<close>, so that \<open>session.token\<close> throws; the parsed value has no string under
  \<open>token\<close>, so that \<open>token.replace\<close> throws inside \<open>isTokenFresh\<close>; or a session with
  a string token.
\<close>

datatype session_file =
    Missing
  | Unparsable
  | ParsedNull
  | NoStringToken
  | Stored session

text \<open>
  What the code sees of the decoded text of the middle segment after \<open>JSON.parse\<close>:
  parsing throws, or the payload is \<open>null\<close> so that \<open>payload.exp\<close> throws
  (\<open>Undecodable\<close>); \<open>payload.exp\<close> is absent or falsy (\<open>NoExp\<close>); \<open>payload.exp\<close> is
  truthy but \<open>payload.exp * 1000\<close> is \<open>NaN\<close> (\<open>ExpNotANumber\<close>); or \<open>payload.exp\<close> is the
  number of seconds \<open>e\<close>. \<open>JSON.parse\<close> with the reading of \<open>exp\<close> is a parameter
  \<open>parsePayload\<close> of the decoded text; the base64 decoding before it is modelled below.
\<close>

datatype jwt_payload =
    Undecodable
  | NoExp
  | ExpNotANumber
  | Exp int

text \<open>\<open>s.replace(pat, rep)\<close> with a string pattern replaces the first occurrence.\<close>

fun replace_first :: "string \<Rightarrow> string \<Rightarrow> string \<Rightarrow> string" where
  "replace_first pat rep [] = (if pat = [] then rep else [])"
| "replace_first pat rep (c # cs) =
     (if prefix pat (c # cs) then rep @ drop (length pat) (c # cs)
      else c # replace_first pat rep cs)"

text \<open>\<open>s.split(d)\<close> for a one-character separator.\<close>

fun split_on :: "char \<Rightarrow> string \<Rightarrow> string list" where
  "split_on d [] = [[]]"
| "split_on d (c # cs) =
     (if c = d then [] # split_on d cs
      else (case split_on d cs of x # xs \<Rightarrow> (c # x) # xs | [] \<Rightarrow> [[c]]))"

text \<open>\<open>rawToken.split('.')[1]\<close>: \<open>undefined\<close> when there is no second segment.\<close>

definition payload_segment :: "string \<Rightarrow> string option" where
  "payload_segment tok =
     (let rawToken = replace_first ''Bearer '' [] (replace_first ''Bearer'' [] tok);
          parts = split_on CHR ''.'' rawToken
      in if 1 < length parts then Some (parts ! 1) else None)"

text \<open>
  \<open>Buffer.from(segment, 'base64')\<close> of Node.js never throws on a string. It reads the
  characters of the standard and of the URL-safe alphabet as six-bit values, skips every
  other character, and stops at the first \<open>=\<close>; four values give three bytes, a last
  group of three values gives two bytes, of two values one byte, and a single left-over
  value gives none. \<open>toString()\<close> turns the bytes into the text that is parsed.
\<close>

definition unbase64 :: "char \<Rightarrow> nat option" where
  "unbase64 c =
     (let n = (of_char c :: nat) in
      if 65 \<le> n \<and> n \<le> 90 then Some (n - 65)
      else if 97 \<le> n \<and> n \<le> 122 then Some (n - 71)
      else if 48 \<le> n \<and> n \<le> 57 then Some (n + 4)
      else if c = CHR ''+'' \<or> c = CHR ''-'' then Some 62
      else if c = CHR ''/'' \<or> c = CHR ''_'' then Some 63
      else None)"

fun sextets :: "string \<Rightarrow> nat list" where
  "sextets [] = []"
| "sextets (c # cs) =
     (if c = CHR ''='' then []
      else (case unbase64 c of Some v \<Rightarrow> v # sextets cs | None \<Rightarrow> sextets cs))"

fun octets :: "nat list \<Rightarrow> nat list" where
  "octets (a # b # c # d # rest) =
     (a * 4 + b div 16) # ((b mod 16) * 16 + c div 4) # ((c mod 4) * 64 + d) # octets rest"
| "octets [a, b, c] = [a * 4 + b div 16, (b mod 16) * 16 + c div 4]"
| "octets [a, b] = [a * 4 + b div 16]"
| "octets rest = []"

definition base64_decode :: "string \<Rightarrow> string" where
  "base64_decode s = map char_of (octets (sextets s))"

text \<open>
  \<^verbatim>\<open>
  function isTokenFresh(token) {
      try {
          const rawToken = token.replace('Bearer', '').replace('Bearer ', '');
          const payload = JSON.parse(Buffer.from(rawToken.split('.')[1], 'base64').toString());
          if (payload.exp) {
              return (payload.exp * 1000) > (Date.now() + 5 * 60 * 1000);
          }
      } catch { /* ignore decode errors */ }
      return false;
  }
  \<close>
  \<open>Buffer.from(undefined, 'base64')\<close> throws; a comparison with \<open>NaN\<close> is false.
  \<open>now\<close> is \<open>Date.now()\<close>, in milliseconds; the argument \<open>token\<close> is \<open>tok\<close>.
\<close>

definition isTokenFresh :: "(string \<Rightarrow> jwt_payload) \<Rightarrow> nat \<Rightarrow> string \<Rightarrow> bool" where
  "isTokenFresh parsePayload now tok =
     (case payload_segment tok of
        None \<Rightarrow> False
      | Some segment \<Rightarrow>
          (case parsePayload (base64_decode segment) of
             Undecodable \<Rightarrow> False
           | NoExp \<Rightarrow> False
           | ExpNotANumber \<Rightarrow> False
           | Exp e \<Rightarrow> int now + 5 * 60 * 1000 < e * 1000))"

text \<open>
  What the module does, in order: reading, deleting and writing \<open>session.json\<close>, each
  call of \<open>login\<close>, its two HTTP requests, and each call of the wrapped operation with
  the session it is given.
\<close>

datatype auth_event =
    ReadSession
  | UnlinkSession
  | LoginCall
  | ClientIpRequest
  | LoginRequest
  | WriteSession
  | Invoke session

record 'r auth_state =
  network :: 'r
  sessionFile :: session_file
  clock :: nat
  events :: "auth_event list"

text \<open>
  The surroundings of the module: the credentials of \<open>process.env\<close> (empty when unset;
  both are falsy), the result of \<open>getMachineId()\<close>, the payload parser, and the outside
  world's answers: the client-IP request (\<open>None\<close> when it fails or carries no data), the
  login request (the \<open>login_token\<close> of the response, \<open>None\<close> when the response has none,
  or the error of the HTTP client), and whether writing or deleting the session file
  fails.
\<close>

record 'r auth_env =
  email_env :: string
  password_env :: string
  machine_id :: string
  parsePayload :: "string \<Rightarrow> jwt_payload"
  clientIpResponse :: "'r \<Rightarrow> string option \<times> 'r"
  loginResponse :: "string \<Rightarrow> string \<Rightarrow> 'r \<Rightarrow> (js_error + string option) \<times> 'r"
  writeFails :: "'r \<Rightarrow> js_error option"
  unlinkFails :: "'r \<Rightarrow> bool"

definition record_event :: "auth_event \<Rightarrow> 'r auth_state \<Rightarrow> 'r auth_state" where
  "record_event e st = st\<lparr>events := events st @ [e]\<rparr>"

text \<open>\<open>getClientIp\<close> never throws: it falls back to \<open>0.0.0.0\<close>.\<close>

definition getClientIp :: "'r auth_env \<Rightarrow> 'r auth_state \<Rightarrow> string \<times> 'r auth_state" where
  "getClientIp env st =
     (case clientIpResponse env (network st) of
        (Some ip, r) \<Rightarrow> (ip, record_event ClientIpRequest (st\<lparr>network := r\<rparr>))
      | (None, r) \<Rightarrow> (''0.0.0.0'', record_event ClientIpRequest (st\<lparr>network := r\<rparr>)))"

definition missing_credentials :: js_error where
  "missing_credentials =
     \<lparr>message = ''CENTAX_EMAIL and CENTAX_PASSWORD must be set in .env file.'' @ [CHR 0x0A]
                  @ ''Copy .env.example to .env and fill in your credentials.'',
      status = None\<rparr>"

definition no_token :: js_error where
  "no_token = \<lparr>message = ''Login failed: No token in response. Check credentials.'', status = None\<rparr>"

text \<open>
  \<open>login\<close>: without credentials it throws before any request. Otherwise it asks for the
  client IP, posts the login, and on a truthy \<open>login_token\<close> builds the session, writes
  it to \<open>session.json\<close> and returns it; a response without a token or with the empty
  string for it (falsy in \<open>if (... && response.data.Data.login_token)\<close>), an error of the
  request and an error of the write are all rethrown by its \<open>catch\<close>. A failed write
  leaves the file as it was.
\<close>

definition login :: "'r auth_env \<Rightarrow> 'r auth_state \<Rightarrow> (js_error + session) \<times> 'r auth_state" where
  "login env st =
     (let st0 = record_event LoginCall st in
      if email_env env = [] \<or> password_env env = [] then (Inl missing_credentials, st0)
      else
        (case getClientIp env st0 of
           (ip, st1) \<Rightarrow>
             (case loginResponse env ip (machine_id env) (network st1) of
                (Inl err, r) \<Rightarrow> (Inl err, record_event LoginRequest (st1\<lparr>network := r\<rparr>))
              | (Inr None, r) \<Rightarrow> (Inl no_token, record_event LoginRequest (st1\<lparr>network := r\<rparr>))
              | (Inr (Some login_token), r) \<Rightarrow>
                  if login_token = []
                  then (Inl no_token, record_event LoginRequest (st1\<lparr>network := r\<rparr>))
                  else
                    (let new_session = \<lparr>token = login_token, machineId = machine_id env,
                                        ipAddress = ip, timestamp = clock st1,
                                        email = email_env env\<rparr>;
                         st2 = record_event WriteSession
                                 (record_event LoginRequest (st1\<lparr>network := r\<rparr>))
                     in case writeFails env r of
                          Some err \<Rightarrow> (Inl err, st2)
                        | None \<Rightarrow> (Inr new_session, st2\<lparr>sessionFile := Stored new_session\<rparr>)))))"

text \<open>
  \<^verbatim>\<open>
  async function getSession() {
      try {
          const sessionData = await fs.readFile(SESSION_FILE, 'utf-8');
          const session = JSON.parse(sessionData);
          if (isTokenFresh(session.token)) { return session; }
          console.log('Session expired, re-authenticating...');
      } catch { /* No cached session */ }
      return await login();
  }
  \<close>
\<close>

definition getSession :: "'r auth_env \<Rightarrow> 'r auth_state \<Rightarrow> (js_error + session) \<times> 'r auth_state" where
  "getSession env st =
     (let st1 = record_event ReadSession st in
      case sessionFile st of
        Missing \<Rightarrow> login env st1
      | Unparsable \<Rightarrow> login env st1
      | ParsedNull \<Rightarrow> login env st1
      | NoStringToken \<Rightarrow> login env st1
      | Stored persisted \<Rightarrow>
          if isTokenFresh (parsePayload env) (clock st) (token persisted)
          then (Inr persisted, st1)
          else login env st1)"

text \<open>
  \<^verbatim>\<open>
  async function forceRefresh() {
      try { await fs.unlink(SESSION_FILE); } catch { /* ignore */ }
      return await login();
  }
  \<close>
\<close>

definition forceRefresh :: "'r auth_env \<Rightarrow> 'r auth_state \<Rightarrow> (js_error + session) \<times> 'r auth_state" where
  "forceRefresh env st =
     login env
       (record_event UnlinkSession
          (if unlinkFails env (network st) then st else st\<lparr>sessionFile := Missing\<rparr>))"

text \<open>
  \<^verbatim>\<open>
  async function authenticatedRequest(requestFn) {
      let session = await getSession();
      try {
          return await requestFn(session);
      } catch (err) {
          const status = err.response?.status;
          if (status === 401 || status === 403 || status === 409) {
              session = await forceRefresh();
              return await requestFn(session);
          }
          throw err;
      }
  }
  \<close>
  \<open>requestFn\<close> is one remote call made with the session: it returns a value or throws.
\<close>

definition auth_failure :: "js_error \<Rightarrow> bool" where
  "auth_failure err = (status err = Some 401 \<or> status err = Some 403 \<or> status err = Some 409)"

definition invoke ::
  "(session \<Rightarrow> 'r \<Rightarrow> (js_error + 'a) \<times> 'r) \<Rightarrow> session \<Rightarrow> 'r auth_state
     \<Rightarrow> (js_error + 'a) \<times> 'r auth_state" where
  "invoke requestFn s st =
     (case requestFn s (network st) of
        (outcome, r) \<Rightarrow> (outcome, record_event (Invoke s) (st\<lparr>network := r\<rparr>)))"

definition authenticatedRequest ::
  "'r auth_env \<Rightarrow> (session \<Rightarrow> 'r \<Rightarrow> (js_error + 'a) \<times> 'r) \<Rightarrow> 'r auth_state
     \<Rightarrow> (js_error + 'a) \<times> 'r auth_state" where
  "authenticatedRequest env requestFn st =
     (case getSession env st of
        (Inl err, st1) \<Rightarrow> (Inl err, st1)
      | (Inr current, st1) \<Rightarrow>
          (case invoke requestFn current st1 of
             (Inr v, st2) \<Rightarrow> (Inr v, st2)
           | (Inl err, st2) \<Rightarrow>
               if auth_failure err then
                 (case forceRefresh env st2 of
                    (Inl err', st3) \<Rightarrow> (Inl err', st3)
                  | (Inr refreshed, st3) \<Rightarrow> invoke requestFn refreshed st3)
               else (Inl err, st2)))"

text \<open>The expiry a token decodes to, in seconds, if it decodes to one.\<close>

definition token_expiry :: "(string \<Rightarrow> jwt_payload) \<Rightarrow> string \<Rightarrow> int option" where
  "token_expiry decode tok =
     (case payload_segment tok of
        None \<Rightarrow> None
      | Some segment \<Rightarrow>
          (case decode (base64_decode segment) of Exp e \<Rightarrow> Some e | _ \<Rightarrow> None))"

text \<open>The sessions the wrapped operation was called with, in order.\<close>

fun invocations :: "auth_event list \<Rightarrow> session list" where
  "invocations [] = []"
| "invocations (Invoke s # es) = s # invocations es"
| "invocations (e # es) = invocations es"

subsection \<open>Properties of the session manager\<close>

lemma invocations_append [simp]: "invocations (xs @ ys) = invocations xs @ invocations ys"
  by (induction xs rule: invocations.induct) simp_all

lemma record_event_fields [simp]:
  "events (record_event e st) = events st @ [e]"
  "network (record_event e st) = network st"
  "sessionFile (record_event e st) = sessionFile st"
  "clock (record_event e st) = clock st"
  by (simp_all add: record_event_def)

lemma isTokenFresh_iff:
  "isTokenFresh decode now tok
     \<longleftrightarrow> (\<exists>e. token_expiry decode tok = Some e \<and> int now + 5 * 60 * 1000 < e * 1000)"
  by (simp add: isTokenFresh_def token_expiry_def split: option.splits jwt_payload.splits)

lemma login_cases:
  obtains
    (no_credentials) "login env st = (Inl missing_credentials, record_event LoginCall st)"
  | (request_failed) err r where
      "login env st
         = (Inl err, st\<lparr>network := r,
                         events := events st @ [LoginCall, ClientIpRequest, LoginRequest]\<rparr>)"
  | (write_failed) err r where
      "login env st
         = (Inl err, st\<lparr>network := r,
                         events := events st @ [LoginCall, ClientIpRequest, LoginRequest, WriteSession]\<rparr>)"
  | (logged_in) s' r where
      "login env st
         = (Inr s', st\<lparr>network := r,
                        events := events st @ [LoginCall, ClientIpRequest, LoginRequest, WriteSession],
                        sessionFile := Stored s'\<rparr>)"
proof (cases "email_env env = [] \<or> password_env env = []")
  case True
  then have "login env st = (Inl missing_credentials, record_event LoginCall st)"
    by (simp add: login_def Let_def)
  then show ?thesis by (rule no_credentials)
next
  case False
  obtain answer r1 where ip: "clientIpResponse env (network st) = (answer, r1)" by force
  define ip where "ip = (case answer of Some i \<Rightarrow> i | None \<Rightarrow> ''0.0.0.0'')"
  define st1 where "st1 = st\<lparr>network := r1, events := events st @ [LoginCall, ClientIpRequest]\<rparr>"
  have client: "getClientIp env (record_event LoginCall st) = (ip, st1)"
    using ip by (simp add: getClientIp_def record_event_def ip_def st1_def split: option.splits)
  obtain lr r2 where post: "loginResponse env ip (machine_id env) r1 = (lr, r2)" by force
  have net1: "network st1 = r1" by (simp add: st1_def)
  show ?thesis
  proof (cases lr)
    case (Inl err)
    with False client post net1
    have "login env st = (Inl err, st\<lparr>network := r2,
                         events := events st @ [LoginCall, ClientIpRequest, LoginRequest]\<rparr>)"
      by (simp add: login_def Let_def record_event_def st1_def)
    then show ?thesis by (rule request_failed)
  next
    case (Inr answer2)
    show ?thesis
    proof (cases answer2)
      case None
      with Inr False client post net1
      have "login env st = (Inl no_token, st\<lparr>network := r2,
                         events := events st @ [LoginCall, ClientIpRequest, LoginRequest]\<rparr>)"
        by (simp add: login_def Let_def record_event_def st1_def)
      then show ?thesis by (rule request_failed)
    next
      case (Some login_token)
      show ?thesis
      proof (cases "login_token = []")
        case True
        with \<open>answer2 = Some login_token\<close> Inr False client post net1
        have "login env st = (Inl no_token, st\<lparr>network := r2,
                         events := events st @ [LoginCall, ClientIpRequest, LoginRequest]\<rparr>)"
          by (simp add: login_def Let_def record_event_def st1_def)
        then show ?thesis by (rule request_failed)
      next
        case nonempty: False
        show ?thesis
        proof (cases "writeFails env r2")
          case (Some err)
          with nonempty \<open>answer2 = Some login_token\<close> Inr False client post net1
          have "login env st = (Inl err, st\<lparr>network := r2,
                         events := events st @ [LoginCall, ClientIpRequest, LoginRequest, WriteSession]\<rparr>)"
            by (simp add: login_def Let_def record_event_def st1_def)
          then show ?thesis by (rule write_failed)
        next
          case None
          with nonempty \<open>answer2 = Some login_token\<close> Inr False client post net1
          have "login env st = (Inr \<lparr>token = login_token, machineId = machine_id env, ipAddress = ip,
                                      timestamp = clock st1, email = email_env env\<rparr>,
                        st\<lparr>network := r2,
                        events := events st @ [LoginCall, ClientIpRequest, LoginRequest, WriteSession],
                        sessionFile := Stored \<lparr>token = login_token, machineId = machine_id env, ipAddress = ip,
                                      timestamp = clock st1, email = email_env env\<rparr>\<rparr>)"
            by (simp add: login_def Let_def record_event_def st1_def)
          then show ?thesis by (rule logged_in)
        qed
      qed
    qed
  qed
qed

lemma login_events:
  "\<exists>es. events (snd (login env st)) = events st @ LoginCall # es
        \<and> set es \<subseteq> {ClientIpRequest, LoginRequest, WriteSession}
        \<and> count_list es LoginRequest \<le> 1"
  by (cases env st rule: login_cases) simp_all

lemma login_persists:
  "login env st = (Inr s', st') \<Longrightarrow> sessionFile st' = Stored s'"
  by (cases env st rule: login_cases) auto

lemma login_invocations:
  "invocations (events (snd (login env st))) = invocations (events st)
   \<and> count_list (events (snd (login env st))) UnlinkSession = count_list (events st) UnlinkSession"
  by (cases env st rule: login_cases) simp_all

lemma getSession_fresh:
  "sessionFile st = Stored s \<Longrightarrow> isTokenFresh (parsePayload env) (clock st) (token s) \<Longrightarrow>
   getSession env st = (Inr s, record_event ReadSession st)"
  by (simp add: getSession_def)

lemma getSession_login:
  "\<not> (\<exists>s. sessionFile st = Stored s \<and> isTokenFresh (parsePayload env) (clock st) (token s)) \<Longrightarrow>
   getSession env st = login env (record_event ReadSession st)"
  by (cases "sessionFile st") (simp_all add: getSession_def)

lemma getSession_invocations:
  "invocations (events (snd (getSession env st))) = invocations (events st)
   \<and> count_list (events (snd (getSession env st))) UnlinkSession = count_list (events st) UnlinkSession"
proof (cases "\<exists>s. sessionFile st = Stored s \<and> isTokenFresh (parsePayload env) (clock st) (token s)")
  case True
  then show ?thesis by (auto simp: getSession_fresh)
next
  case False
  then show ?thesis
    using login_invocations [of env "record_event ReadSession st"] by (simp add: getSession_login)
qed

lemma forceRefresh_invocations:
  "invocations (events (snd (forceRefresh env st))) = invocations (events st)
   \<and> count_list (events (snd (forceRefresh env st))) UnlinkSession
       = Suc (count_list (events st) UnlinkSession)"
  using login_invocations [of env "record_event UnlinkSession
          (if unlinkFails env (network st) then st else st\<lparr>sessionFile := Missing\<rparr>)"]
  by (simp add: forceRefresh_def)

lemma invoke_events:
  "invoke requestFn s st = (outcome, st') \<Longrightarrow>
   events st' = events st @ [Invoke s] \<and> fst (requestFn s (network st)) = outcome"
  by (auto simp: invoke_def split: prod.splits)

lemma login_success:
  assumes "email_env env \<noteq> []" "password_env env \<noteq> []"
    and "clientIpResponse env (network st) = (answer, r1)"
    and "loginResponse env (case answer of Some i \<Rightarrow> i | None \<Rightarrow> ''0.0.0.0'') (machine_id env) r1
           = (Inr (Some login_token), r2)"
    and "login_token \<noteq> []"
    and "writeFails env r2 = None"
  shows "\<exists>s' st'. login env st = (Inr s', st') \<and> token s' = login_token \<and> sessionFile st' = Stored s'"
  using assms
  by (simp add: login_def getClientIp_def record_event_def Let_def split: option.splits)

lemma login_without_token:
  assumes "email_env env \<noteq> []" "password_env env \<noteq> []"
    and "clientIpResponse env (network st) = (answer, r1)"
    and "loginResponse env (case answer of Some i \<Rightarrow> i | None \<Rightarrow> ''0.0.0.0'') (machine_id env) r1
           = (Inr response_token, r2)"
    and "response_token = None \<or> response_token = Some []"
  shows "fst (login env st) = Inl no_token \<and> sessionFile (snd (login env st)) = sessionFile st"
  using assms
  by (auto simp: login_def getClientIp_def record_event_def Let_def split: option.splits)






lemma authenticatedRequest_no_session:
  "getSession env st = (Inl err, st1) \<Longrightarrow> authenticatedRequest env requestFn st = (Inl err, st1)"
  by (simp add: authenticatedRequest_def)

lemma authenticatedRequest_first_ok:
  "getSession env st = (Inr current, st1) \<Longrightarrow> requestFn current (network st1) = (Inr v, r) \<Longrightarrow>
   authenticatedRequest env requestFn st
     = (Inr v, st1\<lparr>network := r, events := events st1 @ [Invoke current]\<rparr>)"
  by (simp add: authenticatedRequest_def invoke_def record_event_def)

lemma authenticatedRequest_other_failure:
  "getSession env st = (Inr current, st1) \<Longrightarrow> requestFn current (network st1) = (Inl err, r) \<Longrightarrow>
   \<not> auth_failure err \<Longrightarrow>
   authenticatedRequest env requestFn st
     = (Inl err, st1\<lparr>network := r, events := events st1 @ [Invoke current]\<rparr>)"
  by (simp add: authenticatedRequest_def invoke_def record_event_def)

lemma authenticatedRequest_refresh_failed:
  "getSession env st = (Inr current, st1) \<Longrightarrow> requestFn current (network st1) = (Inl err, r) \<Longrightarrow>
   auth_failure err \<Longrightarrow>
   forceRefresh env (st1\<lparr>network := r, events := events st1 @ [Invoke current]\<rparr>) = (Inl err', st3) \<Longrightarrow>
   authenticatedRequest env requestFn st = (Inl err', st3)"
  by (simp add: authenticatedRequest_def invoke_def record_event_def)

lemma authenticatedRequest_retry:
  "getSession env st = (Inr current, st1) \<Longrightarrow> requestFn current (network st1) = (Inl err, r) \<Longrightarrow>
   auth_failure err \<Longrightarrow>
   forceRefresh env (st1\<lparr>network := r, events := events st1 @ [Invoke current]\<rparr>) = (Inr refreshed, st3) \<Longrightarrow>
   requestFn refreshed (network st3) = (outcome, r3) \<Longrightarrow>
   authenticatedRequest env requestFn st
     = (outcome, st3\<lparr>network := r3, events := events st3 @ [Invoke refreshed]\<rparr>)"
  by (simp add: authenticatedRequest_def invoke_def record_event_def)

lemma getSession_result_invocations:
  "getSession env st = (res, st1) \<Longrightarrow>
   invocations (events st1) = invocations (events st)
   \<and> count_list (events st1) UnlinkSession = count_list (events st) UnlinkSession"
  using getSession_invocations [of env st] by simp

lemma forceRefresh_result_invocations:
  "forceRefresh env st = (res, st1) \<Longrightarrow>
   invocations (events st1) = invocations (events st)
   \<and> count_list (events st1) UnlinkSession = Suc (count_list (events st) UnlinkSession)"
  using forceRefresh_invocations [of env st] by simp

lemma authenticatedRequest_calls:
  "\<exists>calls. invocations (events (snd (authenticatedRequest env requestFn st)))
             = invocations (events st) @ calls \<and> length calls \<le> 2"
proof -
  obtain res st1 where gs: "getSession env st = (res, st1)" by force
  note inv1 = getSession_result_invocations [OF gs]
  show ?thesis
  proof (cases res)
    case (Inl err)
    with gs inv1 show ?thesis by (simp add: authenticatedRequest_no_session)
  next
    case (Inr current)
    obtain outcome r where call: "requestFn current (network st1) = (outcome, r)" by force
    let ?st2 = "st1\<lparr>network := r, events := events st1 @ [Invoke current]\<rparr>"
    show ?thesis
    proof (cases outcome)
      case (Inr v)
      with gs \<open>res = Inr current\<close> call inv1 show ?thesis
        by (simp add: authenticatedRequest_first_ok)
    next
      case (Inl err)
      show ?thesis
      proof (cases "auth_failure err")
        case False
        with gs \<open>res = Inr current\<close> call Inl inv1 show ?thesis
          by (simp add: authenticatedRequest_other_failure)
      next
        case True
        obtain res3 st3 where fr: "forceRefresh env ?st2 = (res3, st3)" by force
        note inv3 = forceRefresh_result_invocations [OF fr]
        show ?thesis
        proof (cases res3)
          case (Inl err')
          with gs \<open>res = Inr current\<close> call \<open>outcome = Inl err\<close> True fr inv1 inv3 show ?thesis
            by (simp add: authenticatedRequest_refresh_failed)
        next
          case (Inr refreshed)
          obtain outcome2 r3 where call2: "requestFn refreshed (network st3) = (outcome2, r3)" by force
          from gs \<open>res = Inr current\<close> call \<open>outcome = Inl err\<close> True fr Inr call2
          have "authenticatedRequest env requestFn st
                  = (outcome2, st3\<lparr>network := r3, events := events st3 @ [Invoke refreshed]\<rparr>)"
            by (simp add: authenticatedRequest_retry)
          with inv1 inv3 show ?thesis by simp
        qed
      qed
    qed
  qed
qed

text \<open>
  C3. When the persisted session's token decodes to an expiry \<open>e\<close> (seconds) with
  \<open>e * 1000 > now + 5 * 60 * 1000\<close> (milliseconds), \<open>getSession\<close> returns that session
  and does nothing but read the file: no request, no login. In every other case it is
  one call of \<open>login\<close> after reading the file: \<open>login\<close> is entered exactly once, posts
  at most one login request, and when it succeeds the session it returns is the one
  written to the session file; it does succeed when the credentials are set, the remote
  answers with a non-empty token and the file can be written. Without credentials, and
  with a response that has no token or an empty one, it throws and the session file
  stays as it was.
\<close>

theorem getSession_fresh_or_one_login:
  "(\<forall>s e. sessionFile st = Stored s \<and> token_expiry (parsePayload env) (token s) = Some e
           \<and> int (clock st) + 5 * 60 * 1000 < e * 1000
       \<longrightarrow> getSession env st = (Inr s, st\<lparr>events := events st @ [ReadSession]\<rparr>))
   \<and> (\<not> (\<exists>s e. sessionFile st = Stored s \<and> token_expiry (parsePayload env) (token s) = Some e
                \<and> int (clock st) + 5 * 60 * 1000 < e * 1000)
       \<longrightarrow> getSession env st = login env (st\<lparr>events := events st @ [ReadSession]\<rparr>)
           \<and> (\<exists>es. events (snd (getSession env st)) = events st @ ReadSession # LoginCall # es
                  \<and> set es \<subseteq> {ClientIpRequest, LoginRequest, WriteSession}
                  \<and> count_list es LoginRequest \<le> 1)
           \<and> (\<forall>s' st'. getSession env st = (Inr s', st') \<longrightarrow> sessionFile st' = Stored s')
           \<and> (\<forall>answer r1 login_token r2.
                 email_env env \<noteq> [] \<and> password_env env \<noteq> []
                 \<and> clientIpResponse env (network st) = (answer, r1)
                 \<and> loginResponse env (case answer of Some i \<Rightarrow> i | None \<Rightarrow> ''0.0.0.0'')
                      (machine_id env) r1 = (Inr (Some login_token), r2)
                 \<and> login_token \<noteq> []
                 \<and> writeFails env r2 = None
                 \<longrightarrow> (\<exists>s' st'. getSession env st = (Inr s', st') \<and> token s' = login_token
                             \<and> sessionFile st' = Stored s'))
           \<and> (\<forall>answer r1 response_token r2.
                 email_env env \<noteq> [] \<and> password_env env \<noteq> []
                 \<and> clientIpResponse env (network st) = (answer, r1)
                 \<and> loginResponse env (case answer of Some i \<Rightarrow> i | None \<Rightarrow> ''0.0.0.0'')
                      (machine_id env) r1 = (Inr response_token, r2)
                 \<and> (response_token = None \<or> response_token = Some [])
                 \<longrightarrow> fst (getSession env st) = Inl no_token
                     \<and> sessionFile (snd (getSession env st)) = sessionFile st)
           \<and> (email_env env = [] \<or> password_env env = []
                 \<longrightarrow> getSession env st
                       = (Inl missing_credentials,
                          st\<lparr>events := events st @ [ReadSession, LoginCall]\<rparr>)))"
proof (intro conjI allI impI)
  fix s e
  assume "sessionFile st = Stored s \<and> token_expiry (parsePayload env) (token s) = Some e
           \<and> int (clock st) + 5 * 60 * 1000 < e * 1000"
  then have "sessionFile st = Stored s" and "isTokenFresh (parsePayload env) (clock st) (token s)"
    by (auto simp: isTokenFresh_iff)
  then show "getSession env st = (Inr s, st\<lparr>events := events st @ [ReadSession]\<rparr>)"
    by (simp add: getSession_fresh record_event_def)
next
  assume stale: "\<not> (\<exists>s e. sessionFile st = Stored s \<and> token_expiry (parsePayload env) (token s) = Some e
                \<and> int (clock st) + 5 * 60 * 1000 < e * 1000)"
  then have "\<not> (\<exists>s. sessionFile st = Stored s \<and> isTokenFresh (parsePayload env) (clock st) (token s))"
    by (auto simp: isTokenFresh_iff)
  from getSession_login [OF this]
  have gs: "getSession env st = login env (record_event ReadSession st)" .
  then show eq: "getSession env st = login env (st\<lparr>events := events st @ [ReadSession]\<rparr>)"
    by (simp add: record_event_def)
  from login_events [of env "record_event ReadSession st"]
  show "\<exists>es. events (snd (getSession env st)) = events st @ ReadSession # LoginCall # es
                  \<and> set es \<subseteq> {ClientIpRequest, LoginRequest, WriteSession}
                  \<and> count_list es LoginRequest \<le> 1"
    by (simp add: gs)
  {
    fix s' st'
    assume "getSession env st = (Inr s', st')"
    with gs show "sessionFile st' = Stored s'" by (simp add: login_persists)
  }
  {
    fix answer r1 login_token r2
    assume ok: "email_env env \<noteq> [] \<and> password_env env \<noteq> []
                 \<and> clientIpResponse env (network st) = (answer, r1)
                 \<and> loginResponse env (case answer of Some i \<Rightarrow> i | None \<Rightarrow> ''0.0.0.0'')
                      (machine_id env) r1 = (Inr (Some login_token), r2)
                 \<and> login_token \<noteq> []
                 \<and> writeFails env r2 = None"
    then have "\<exists>s' st'. login env (record_event ReadSession st) = (Inr s', st')
                \<and> token s' = login_token \<and> sessionFile st' = Stored s'"
      by (intro login_success [where answer = answer and ?r1.0 = r1 and ?r2.0 = r2]) simp_all
    then show "\<exists>s' st'. getSession env st = (Inr s', st') \<and> token s' = login_token
                             \<and> sessionFile st' = Stored s'"
      by (simp add: gs)
  }
  {
    fix answer r1 response_token r2
    assume none: "email_env env \<noteq> [] \<and> password_env env \<noteq> []
                 \<and> clientIpResponse env (network st) = (answer, r1)
                 \<and> loginResponse env (case answer of Some i \<Rightarrow> i | None \<Rightarrow> ''0.0.0.0'')
                      (machine_id env) r1 = (Inr response_token, r2)
                 \<and> (response_token = None \<or> response_token = Some [])"
    then have "fst (login env (record_event ReadSession st)) = Inl no_token
         \<and> sessionFile (snd (login env (record_event ReadSession st)))
             = sessionFile (record_event ReadSession st)"
      by (intro login_without_token [where answer = answer and ?r1.0 = r1 and ?r2.0 = r2
            and response_token = response_token]) simp_all
    then show "fst (getSession env st) = Inl no_token"
      and "sessionFile (snd (getSession env st)) = sessionFile st"
      by (simp_all add: gs)
  }
  assume "email_env env = [] \<or> password_env env = []"
  then show "getSession env st
                       = (Inl missing_credentials,
                          st\<lparr>events := events st @ [ReadSession, LoginCall]\<rparr>)"
    by (simp add: gs login_def record_event_def Let_def)
qed

text \<open>
  For concrete runs, a stand-in for \<open>JSON.parse\<close> followed by the reading of \<open>exp\<close>: on
  a text \<open>{"exp":digits}\<close> it gives what \<open>JSON.parse\<close> gives, and it takes every other
  text for a parse error (the real parser accepts more texts than these).
\<close>

fun digits_value :: "string \<Rightarrow> nat \<Rightarrow> nat option" where
  "digits_value [] acc = Some acc"
| "digits_value (c # cs) acc =
     (if 48 \<le> (of_char c :: nat) \<and> (of_char c :: nat) \<le> 57
      then digits_value cs (10 * acc + (of_char c - 48)) else None)"

definition exp_only_json :: "string \<Rightarrow> jwt_payload" where
  \<open>exp_only_json text =
     (let ds = butlast (drop 7 text) in
      if text = ''{"exp":'' @ ds @ ''}'' \<and> ds \<noteq> [] \<and> (if hd ds = CHR ''0'' then ds = ''0'' else True)
      then (case digits_value ds 0 of
              None \<Rightarrow> Undecodable
            | Some n \<Rightarrow> if n = 0 then NoExp else Exp (int n))
      else Undecodable)\<close>

text \<open>
  A concrete setting: credentials are set, the remote hands out the token
  \<open>Bearer n.p.s\<close> and the disk takes every write. The middle segment of the persisted
  token is the base64 text of \<open>{"exp":2000}\<close>: at clock 1000 s the token is fresh, at
  clock 1800 s it is within the five-minute margin.
\<close>

definition test_env :: "unit auth_env" where
  "test_env =
     \<lparr>email_env = ''u'', password_env = ''pw'', machine_id = ''m'', parsePayload = exp_only_json,
      clientIpResponse = (\<lambda>r. (Some ''1.2.3.4'', r)),
      loginResponse = (\<lambda>ip m r. (Inr (Some ''Bearer n.p.s''), r)),
      writeFails = (\<lambda>r. None), unlinkFails = (\<lambda>r. False)\<rparr>"

definition old_session :: session where
  "old_session =
     \<lparr>token = ''Bearer h.eyJleHAiOjIwMDB9.s'', machineId = ''m'', ipAddress = ''1.2.3.4'', timestamp = 0,
      email = ''u''\<rparr>"

definition session_state :: "nat \<Rightarrow> unit auth_state" where
  "session_state now = \<lparr>network = (), sessionFile = Stored old_session, clock = now, events = []\<rparr>"

lemma old_session_segment: "payload_segment (token old_session) = Some ''eyJleHAiOjIwMDB9''"
  by (simp add: payload_segment_def old_session_def Let_def)

lemma old_session_payload: \<open>base64_decode ''eyJleHAiOjIwMDB9'' = ''{"exp":2000}''\<close>
  by (simp add: base64_decode_def unbase64_def char_of_eq_iff)

lemma old_session_expiry: "token_expiry exp_only_json (token old_session) = Some 2000"
  by (simp add: token_expiry_def old_session_segment old_session_payload exp_only_json_def)

text \<open>The same setting with a remote that answers the login with an empty token.\<close>

definition empty_token_env :: "unit auth_env" where
  "empty_token_env = test_env\<lparr>loginResponse := (\<lambda>ip m r. (Inr (Some []), r))\<rparr>"

theorem getSession_fresh_or_one_login_witness:
  "getSession test_env (session_state 1000000)
     = (Inr old_session, (session_state 1000000)\<lparr>events := [ReadSession]\<rparr>)
   \<and> (\<exists>s' st'. getSession test_env (session_state 1800000) = (Inr s', st')
         \<and> token s' = ''Bearer n.p.s'' \<and> sessionFile st' = Stored s')
   \<and> fst (getSession empty_token_env (session_state 1800000)) = Inl no_token
   \<and> sessionFile (snd (getSession empty_token_env (session_state 1800000))) = Stored old_session"
proof -
  have fresh: "sessionFile (session_state 1000000) = Stored old_session
      \<and> token_expiry (parsePayload test_env) (token old_session) = Some 2000
      \<and> int (clock (session_state 1000000)) + 5 * 60 * 1000 < 2000 * 1000"
    by (simp add: session_state_def test_env_def old_session_expiry)
  from getSession_fresh_or_one_login [of "session_state 1000000" test_env,
      THEN conjunct1, rule_format, OF fresh]
  have a: "getSession test_env (session_state 1000000)
     = (Inr old_session, (session_state 1000000)\<lparr>events := [ReadSession]\<rparr>)"
    by (simp add: session_state_def)
  have stale: "\<not> (\<exists>s e. sessionFile (session_state 1800000) = Stored s
      \<and> token_expiry (parsePayload test_env) (token s) = Some e
      \<and> int (clock (session_state 1800000)) + 5 * 60 * 1000 < e * 1000)"
    by (auto simp: session_state_def test_env_def old_session_expiry)
  have answers: "email_env test_env \<noteq> [] \<and> password_env test_env \<noteq> []
      \<and> clientIpResponse test_env (network (session_state 1800000)) = (Some ''1.2.3.4'', ())
      \<and> loginResponse test_env (case Some ''1.2.3.4'' of Some i \<Rightarrow> i | None \<Rightarrow> ''0.0.0.0'')
           (machine_id test_env) () = (Inr (Some ''Bearer n.p.s''), ())
      \<and> ''Bearer n.p.s'' \<noteq> []
      \<and> writeFails test_env () = None"
    by (simp add: test_env_def)
  from getSession_fresh_or_one_login [of "session_state 1800000" test_env,
      THEN conjunct2, rule_format, OF stale, THEN conjunct2, THEN conjunct2, THEN conjunct2,
      THEN conjunct1, rule_format, OF answers]
  have b: "\<exists>s' st'. getSession test_env (session_state 1800000) = (Inr s', st')
         \<and> token s' = ''Bearer n.p.s'' \<and> sessionFile st' = Stored s'" .
  have stale': "\<not> (\<exists>s e. sessionFile (session_state 1800000) = Stored s
      \<and> token_expiry (parsePayload empty_token_env) (token s) = Some e
      \<and> int (clock (session_state 1800000)) + 5 * 60 * 1000 < e * 1000)"
    by (auto simp: session_state_def test_env_def empty_token_env_def old_session_expiry)
  have empty: "email_env empty_token_env \<noteq> [] \<and> password_env empty_token_env \<noteq> []
      \<and> clientIpResponse empty_token_env (network (session_state 1800000)) = (Some ''1.2.3.4'', ())
      \<and> loginResponse empty_token_env (case Some ''1.2.3.4'' of Some i \<Rightarrow> i | None \<Rightarrow> ''0.0.0.0'')
           (machine_id empty_token_env) () = (Inr (Some []), ())
      \<and> (Some [] = None \<or> Some [] = Some ([] :: string))"
    by (simp add: test_env_def empty_token_env_def)
  from getSession_fresh_or_one_login [of "session_state 1800000" empty_token_env,
      THEN conjunct2, rule_format, OF stale', THEN conjunct2, THEN conjunct2, THEN conjunct2,
      THEN conjunct2, THEN conjunct1, rule_format, OF empty]
  have c: "fst (getSession empty_token_env (session_state 1800000)) = Inl no_token
      \<and> sessionFile (snd (getSession empty_token_env (session_state 1800000)))
          = sessionFile (session_state 1800000)" .
  from a b c show ?thesis by (simp add: session_state_def)
qed




text \<open>
  C2. One run of \<open>authenticatedRequest\<close> calls the operation at most twice. If no
  session can be obtained it is not called and that error is thrown. Otherwise it is
  called once with the session of \<open>getSession\<close>: a result is returned, and a failure
  whose status is not 401, 403 or 409 is thrown as it is, in both cases with no refresh.
  On a failure with status 401, 403 or 409 \<open>forceRefresh\<close> runs once; if it yields a
  session the operation is called a second and last time with that session and its
  outcome, result or failure, is the outcome of the run; if the refresh itself fails, that
  error is thrown and there is no second call.
\<close>

theorem authenticatedRequest_one_retry:
  "(\<exists>calls. invocations (events (snd (authenticatedRequest env requestFn st)))
              = invocations (events st) @ calls \<and> length calls \<le> 2)
   \<and> (\<forall>err. auth_failure err
         \<longleftrightarrow> status err = Some 401 \<or> status err = Some 403 \<or> status err = Some 409)
   \<and> (\<forall>err st1. getSession env st = (Inl err, st1)
        \<longrightarrow> authenticatedRequest env requestFn st = (Inl err, st1)
            \<and> invocations (events st1) = invocations (events st))
   \<and> (\<forall>current st1 v r.
         getSession env st = (Inr current, st1) \<and> requestFn current (network st1) = (Inr v, r)
        \<longrightarrow> authenticatedRequest env requestFn st
              = (Inr v, st1\<lparr>network := r, events := events st1 @ [Invoke current]\<rparr>)
            \<and> invocations (events st1 @ [Invoke current]) = invocations (events st) @ [current]
            \<and> count_list (events st1 @ [Invoke current]) UnlinkSession
                = count_list (events st) UnlinkSession)
   \<and> (\<forall>current st1 err r.
         getSession env st = (Inr current, st1) \<and> requestFn current (network st1) = (Inl err, r)
         \<and> \<not> auth_failure err
        \<longrightarrow> authenticatedRequest env requestFn st
              = (Inl err, st1\<lparr>network := r, events := events st1 @ [Invoke current]\<rparr>)
            \<and> invocations (events st1 @ [Invoke current]) = invocations (events st) @ [current]
            \<and> count_list (events st1 @ [Invoke current]) UnlinkSession
                = count_list (events st) UnlinkSession)
   \<and> (\<forall>current st1 err r err' st3.
         getSession env st = (Inr current, st1) \<and> requestFn current (network st1) = (Inl err, r)
         \<and> auth_failure err
         \<and> forceRefresh env (st1\<lparr>network := r, events := events st1 @ [Invoke current]\<rparr>)
             = (Inl err', st3)
        \<longrightarrow> authenticatedRequest env requestFn st = (Inl err', st3)
            \<and> invocations (events st3) = invocations (events st) @ [current]
            \<and> count_list (events st3) UnlinkSession = Suc (count_list (events st) UnlinkSession))
   \<and> (\<forall>current st1 err r refreshed st3 outcome r3.
         getSession env st = (Inr current, st1) \<and> requestFn current (network st1) = (Inl err, r)
         \<and> auth_failure err
         \<and> forceRefresh env (st1\<lparr>network := r, events := events st1 @ [Invoke current]\<rparr>)
             = (Inr refreshed, st3)
         \<and> requestFn refreshed (network st3) = (outcome, r3)
        \<longrightarrow> authenticatedRequest env requestFn st
              = (outcome, st3\<lparr>network := r3, events := events st3 @ [Invoke refreshed]\<rparr>)
            \<and> invocations (events st3 @ [Invoke refreshed])
                = invocations (events st) @ [current, refreshed]
            \<and> count_list (events st3 @ [Invoke refreshed]) UnlinkSession
                = Suc (count_list (events st) UnlinkSession))"
proof (intro conjI allI impI)
  show "\<exists>calls. invocations (events (snd (authenticatedRequest env requestFn st)))
              = invocations (events st) @ calls \<and> length calls \<le> 2"
    by (rule authenticatedRequest_calls)
next
  fix err
  show "auth_failure err
         \<longleftrightarrow> status err = Some 401 \<or> status err = Some 403 \<or> status err = Some 409"
    by (simp add: auth_failure_def)
next
  fix err st1
  assume h: "getSession env st = (Inl err, st1)"
  then show "authenticatedRequest env requestFn st = (Inl err, st1)"
    by (rule authenticatedRequest_no_session)
  from getSession_result_invocations [OF h]
  show "invocations (events st1) = invocations (events st)" by simp
next
  fix current st1 v r
  assume h: "getSession env st = (Inr current, st1) \<and> requestFn current (network st1) = (Inr v, r)"
  then have gs: "getSession env st = (Inr current, st1)"
    and call: "requestFn current (network st1) = (Inr v, r)" by simp_all
  from gs call show "authenticatedRequest env requestFn st
              = (Inr v, st1\<lparr>network := r, events := events st1 @ [Invoke current]\<rparr>)"
    by (rule authenticatedRequest_first_ok)
  from getSession_result_invocations [OF gs]
  show "invocations (events st1 @ [Invoke current]) = invocations (events st) @ [current]"
    and "count_list (events st1 @ [Invoke current]) UnlinkSession
                = count_list (events st) UnlinkSession"
    by simp_all
next
  fix current st1 err r
  assume h: "getSession env st = (Inr current, st1) \<and> requestFn current (network st1) = (Inl err, r)
         \<and> \<not> auth_failure err"
  then have gs: "getSession env st = (Inr current, st1)"
    and call: "requestFn current (network st1) = (Inl err, r)"
    and other: "\<not> auth_failure err" by simp_all
  from gs call other show "authenticatedRequest env requestFn st
              = (Inl err, st1\<lparr>network := r, events := events st1 @ [Invoke current]\<rparr>)"
    by (rule authenticatedRequest_other_failure)
  from getSession_result_invocations [OF gs]
  show "invocations (events st1 @ [Invoke current]) = invocations (events st) @ [current]"
    and "count_list (events st1 @ [Invoke current]) UnlinkSession
                = count_list (events st) UnlinkSession"
    by simp_all
next
  fix current st1 err r err' st3
  assume h: "getSession env st = (Inr current, st1) \<and> requestFn current (network st1) = (Inl err, r)
         \<and> auth_failure err
         \<and> forceRefresh env (st1\<lparr>network := r, events := events st1 @ [Invoke current]\<rparr>)
             = (Inl err', st3)"
  then have gs: "getSession env st = (Inr current, st1)"
    and call: "requestFn current (network st1) = (Inl err, r)"
    and auth: "auth_failure err"
    and fr: "forceRefresh env (st1\<lparr>network := r, events := events st1 @ [Invoke current]\<rparr>)
             = (Inl err', st3)" by simp_all
  from gs call auth fr show "authenticatedRequest env requestFn st = (Inl err', st3)"
    by (rule authenticatedRequest_refresh_failed)
  from getSession_result_invocations [OF gs] forceRefresh_result_invocations [OF fr]
  show "invocations (events st3) = invocations (events st) @ [current]"
    and "count_list (events st3) UnlinkSession = Suc (count_list (events st) UnlinkSession)"
    by simp_all
next
  fix current st1 err r refreshed st3 outcome r3
  assume h: "getSession env st = (Inr current, st1) \<and> requestFn current (network st1) = (Inl err, r)
         \<and> auth_failure err
         \<and> forceRefresh env (st1\<lparr>network := r, events := events st1 @ [Invoke current]\<rparr>)
             = (Inr refreshed, st3)
         \<and> requestFn refreshed (network st3) = (outcome, r3)"
  then have gs: "getSession env st = (Inr current, st1)"
    and call: "requestFn current (network st1) = (Inl err, r)"
    and auth: "auth_failure err"
    and fr: "forceRefresh env (st1\<lparr>network := r, events := events st1 @ [Invoke current]\<rparr>)
             = (Inr refreshed, st3)"
    and call2: "requestFn refreshed (network st3) = (outcome, r3)" by simp_all
  from gs call auth fr call2 show "authenticatedRequest env requestFn st
              = (outcome, st3\<lparr>network := r3, events := events st3 @ [Invoke refreshed]\<rparr>)"
    by (rule authenticatedRequest_retry)
  from getSession_result_invocations [OF gs] forceRefresh_result_invocations [OF fr]
  show "invocations (events st3 @ [Invoke refreshed])
                = invocations (events st) @ [current, refreshed]"
    and "count_list (events st3 @ [Invoke refreshed]) UnlinkSession
                = Suc (count_list (events st) UnlinkSession)"
    by simp_all
qed

text \<open>
  An operation that the remote rejects with status 401 under the persisted token and
  answers under the token of a new login.
\<close>

definition revoked_token_request :: "session \<Rightarrow> unit \<Rightarrow> (js_error + nat) \<times> unit" where
  "revoked_token_request s r =
     (if token s = ''Bearer n.p.s'' then (Inr 7, r)
      else (Inl \<lparr>message = ''Request failed with status code 401'', status = Some 401\<rparr>, r))"

definition new_session :: session where
  "new_session =
     \<lparr>token = ''Bearer n.p.s'', machineId = ''m'', ipAddress = ''1.2.3.4'', timestamp = 1000000,
      email = ''u''\<rparr>"

theorem authenticatedRequest_one_retry_witness:
  "fst (authenticatedRequest test_env revoked_token_request (session_state 1000000)) = Inr 7
   \<and> events (snd (authenticatedRequest test_env revoked_token_request (session_state 1000000)))
       = [ReadSession, Invoke old_session, UnlinkSession, LoginCall, ClientIpRequest, LoginRequest,
          WriteSession, Invoke new_session]"
proof -
  let ?st1 = "(session_state 1000000)\<lparr>events := [ReadSession]\<rparr>"
  let ?st3 = "\<lparr>network = (), sessionFile = Stored new_session, clock = 1000000,
               events = [ReadSession, Invoke old_session, UnlinkSession, LoginCall,
                         ClientIpRequest, LoginRequest, WriteSession]\<rparr>"
  have "isTokenFresh (parsePayload test_env) (clock (session_state 1000000)) (token old_session)"
    by (simp add: isTokenFresh_iff test_env_def old_session_expiry session_state_def)
  then have gs: "getSession test_env (session_state 1000000) = (Inr old_session, ?st1)"
    by (simp add: getSession_def session_state_def record_event_def)
  have call: "revoked_token_request old_session (network ?st1)
      = (Inl \<lparr>message = ''Request failed with status code 401'', status = Some 401\<rparr>, ())"
    by (simp add: revoked_token_request_def old_session_def)
  have auth: "auth_failure \<lparr>message = ''Request failed with status code 401'', status = Some 401\<rparr>"
    by (simp add: auth_failure_def)
  have fr: "forceRefresh test_env (?st1\<lparr>network := (), events := events ?st1 @ [Invoke old_session]\<rparr>)
      = (Inr new_session, ?st3)"
    by (simp add: forceRefresh_def login_def getClientIp_def record_event_def test_env_def
        session_state_def new_session_def Let_def)
  have call2: "revoked_token_request new_session (network ?st3) = (Inr 7, ())"
    by (simp add: revoked_token_request_def new_session_def)
  from authenticatedRequest_one_retry [of test_env revoked_token_request "session_state 1000000",
      THEN conjunct2, THEN conjunct2, THEN conjunct2, THEN conjunct2, THEN conjunct2,
      THEN conjunct2, rule_format, OF conjI, OF gs conjI, OF call conjI, OF auth conjI, OF fr call2]
  have "authenticatedRequest test_env revoked_token_request (session_state 1000000)
      = (Inr 7, ?st3\<lparr>network := (), events := events ?st3 @ [Invoke new_session]\<rparr>)"
    by simp
  then show ?thesis by simp
qed

end
